theory Spec2Isabelle
  imports Complex_Main "HOL-Library.Word" "HOL-Library.Multiset"
begin

unbundle bit_operations_syntax

section \<open>Values of net/netip\<close>

text \<open>
  A \<open>netip.Addr\<close> is the zero value, an IPv4 address (32 bits) or an IPv6 address
  (128 bits, with a zone that is empty for every address built by this program). Go's
  \<open>==\<close> on \<open>netip.Addr\<close> is equality of these values.
\<close>

datatype Addr = AddrZero | Addr4 "32 word" | Addr6 "128 word" string

text \<open>Failures of the modelled code: run-time panics and returned errors.\<close>

datatype failure =
    PanicMakeslice
  | PanicSliceBounds
  | ErrInvalidStep int
  | PanicNegativeShift
  | PanicIndexOutOfRange
  | PanicAs4
  | ErrCannotSplit Addr int int
  | ErrNetip "nat list"
  | ErrParseCidr "nat list" failure
  | ErrTooLong
  | ErrRead
  | FatalOutOfMemory

section \<open>The top-N collection (package search)\<close>

text \<open>
  \<open>TopResult\<close>: the methods of \<open>topN\<close> read the fields \<open>IP\<close> and \<open>ScoreMS\<close> only; the
  declaration of the struct is not among the sources, so all its other fields are the
  component \<open>rest\<close>. \<open>ScoreMS\<close> is a \<open>float64\<close> that holds a number of milliseconds; it is
  modelled as a real number (no NaN), on which \<open><\<close> is the order of the floats.
\<close>

record 'p TopResult =
  IP :: Addr
  ScoreMS :: real
  rest :: 'p

text \<open>\<open>type topN struct { n int; mu sync.Mutex; buf []TopResult }\<close>. Every method holds
  the mutex from its first to its last statement, so the methods run one after another.\<close>

record 'p topN =
  n :: int
  buf :: "'p TopResult list"

text \<open>\<open>newTopN\<close>: \<open>make([]TopResult, 0, n)\<close> panics when the capacity is negative.\<close>

definition newTopN :: "int \<Rightarrow> failure + 'p topN" where
  "newTopN k = (if k < 0 then Inl PanicMakeslice else Inr \<lparr>n = k, buf = []\<rparr>)"

text \<open>\<open>sort.SliceStable\<close> with the comparison \<open>buf[i].ScoreMS < buf[j].ScoreMS\<close>: the
  stable sort by the key \<open>ScoreMS\<close>.\<close>

definition sortLocked :: "'p topN \<Rightarrow> 'p topN" where
  "sortLocked t = t\<lparr>buf := sort_key ScoreMS (buf t)\<rparr>"

text \<open>\<open>t.buf[:t.n]\<close> is a slice expression: it panics when \<open>t.n\<close> is negative.\<close>

definition trimLocked :: "'p topN \<Rightarrow> failure + 'p topN" where
  "trimLocked t =
     (if int (length (buf t)) > n t
      then (if n t < 0 then Inl PanicSliceBounds
            else Inr (t\<lparr>buf := take (nat (n t)) (buf t)\<rparr>))
      else Inr t)"

text \<open>The index at which \<open>for i := range t.buf\<close> first meets an entry with the IP of \<open>r\<close>.\<close>

fun firstIndex :: "('a \<Rightarrow> bool) \<Rightarrow> 'a list \<Rightarrow> nat option" where
  "firstIndex P [] = None"
| "firstIndex P (x # xs) = (if P x then Some 0 else map_option Suc (firstIndex P xs))"

definition Consider :: "'p topN \<Rightarrow> 'p TopResult \<Rightarrow> failure + 'p topN" where
  "Consider t r =
     (if n t \<le> 0 then Inr t
      else case firstIndex (\<lambda>e. IP e = IP r) (buf t) of
             Some i \<Rightarrow>
               trimLocked (sortLocked
                 (if ScoreMS r < ScoreMS (buf t ! i) then t\<lparr>buf := (buf t)[i := r]\<rparr> else t))
           | None \<Rightarrow> trimLocked (sortLocked (t\<lparr>buf := buf t @ [r]\<rparr>)))"

definition Snapshot :: "'p topN \<Rightarrow> 'p TopResult list" where
  "Snapshot t = buf t"

text \<open>A sequence of \<open>Consider\<close> calls; a panic would end it.\<close>

fun considerAll :: "'p topN \<Rightarrow> 'p TopResult list \<Rightarrow> failure + 'p topN" where
  "considerAll t [] = Inr t"
| "considerAll t (r # rs) =
     (case Consider t r of Inl e \<Rightarrow> Inl e | Inr t' \<Rightarrow> considerAll t' rs)"

text \<open>
  The algorithm of the specification, in its words: if an entry with the IP of \<open>r\<close> exists,
  replace it iff the score of \<open>r\<close> is strictly less, otherwise drop \<open>r\<close>; else append;
  stably sort ascending by score; truncate to \<open>n\<close>.
\<close>

definition consider_spec :: "int \<Rightarrow> 'p TopResult list \<Rightarrow> 'p TopResult \<Rightarrow> 'p TopResult list" where
  "consider_spec k b r =
     take (nat k) (sort_key ScoreMS
       (if \<exists>e \<in> set b. IP e = IP r
        then map (\<lambda>e. if IP e = IP r \<and> ScoreMS r < ScoreMS e then r else e) b
        else b @ [r]))"

text \<open>
  The buffer as \<open>Consider\<close> leaves it just before \<open>sortLocked\<close> (the loop body at the
  first matching index, or the append); it is used to state the lemmas about \<open>Consider\<close>.
\<close>

definition upd :: "'p TopResult list \<Rightarrow> 'p TopResult \<Rightarrow> 'p TopResult list" where
  "upd b r = (case firstIndex (\<lambda>e. IP e = IP r) b of
       Some i \<Rightarrow> if ScoreMS r < ScoreMS (b ! i) then b[i := r] else b
     | None \<Rightarrow> b @ [r])"

text \<open>The invariant of the collection.\<close>

definition topN_inv :: "'p topN \<Rightarrow> bool" where
  "topN_inv t =
     (0 \<le> n t \<and> int (length (buf t)) \<le> n t \<and>
      sorted (map ScoreMS (buf t)) \<and> distinct (map IP (buf t)))"


section \<open>Strings\<close>

text \<open>
  A Go string is modelled as the list of its Unicode code points (valid UTF-8 text);
  \<open>str\<close> turns an ASCII literal into one. \<open>strings.Split\<close> and \<open>strings.Cut\<close> with an
  ASCII separator cut such a text at the same places as they cut its bytes.
\<close>

type_synonym gostring = "nat list"

definition str :: "string \<Rightarrow> gostring" where
  "str s = map of_char s"

text \<open>\<open>unicode.IsSpace\<close>, the white space that \<open>strings.TrimSpace\<close> removes.\<close>

definition isSpace :: "nat \<Rightarrow> bool" where
  "isSpace c =
     (c = 9 \<or> c = 10 \<or> c = 11 \<or> c = 12 \<or> c = 13 \<or> c = 32 \<or> c = 0x85 \<or> c = 0xA0 \<or>
      c = 0x1680 \<or> (0x2000 \<le> c \<and> c \<le> 0x200A) \<or> c = 0x2028 \<or> c = 0x2029 \<or>
      c = 0x202F \<or> c = 0x205F \<or> c = 0x3000)"

definition TrimSpace :: "gostring \<Rightarrow> gostring" where
  "TrimSpace s = rev (dropWhile isSpace (rev (dropWhile isSpace s)))"

text \<open>\<open>strings.Split(s, sep)\<close> for a separator of one character: the first segment and the
  remaining ones.\<close>

fun splitFirst :: "gostring \<Rightarrow> nat \<Rightarrow> gostring \<times> gostring list" where
  "splitFirst [] c = ([], [])"
| "splitFirst (x # xs) c =
     (case splitFirst xs c of (l, ls) \<Rightarrow> if x = c then ([], l # ls) else (x # l, ls))"

definition Split :: "gostring \<Rightarrow> nat \<Rightarrow> gostring list" where
  "Split s c = (case splitFirst s c of (l, ls) \<Rightarrow> l # ls)"

text \<open>\<open>strings.Cut(s, sep)\<close>: the text before and after the first separator, and whether
  there is one.\<close>

definition Cut :: "gostring \<Rightarrow> nat \<Rightarrow> gostring \<times> gostring \<times> bool" where
  "Cut s c =
     (if c \<in> set s
      then (takeWhile (\<lambda>x. x \<noteq> c) s, tl (dropWhile (\<lambda>x. x \<noteq> c) s), True)
      else (s, [], False))"

section \<open>The trace body parser (package probe)\<close>

text \<open>The body of the loop of \<open>parseTrace\<close>; 61 is \<open>=\<close> and 10 is the line feed.\<close>

definition traceLine :: "(gostring \<rightharpoonup> gostring) \<Rightarrow> gostring \<Rightarrow> (gostring \<rightharpoonup> gostring)" where
  "traceLine m line0 =
     (let line = TrimSpace line0 in
      if line = [] then m
      else case Cut line 61 of (k, v, ok) \<Rightarrow>
        if \<not> ok then m
        else let k' = TrimSpace k; v' = TrimSpace v in
             if k' \<noteq> [] then m(k' \<mapsto> v') else m)"

definition parseTrace :: "gostring \<Rightarrow> (gostring \<rightharpoonup> gostring)" where
  "parseTrace s = foldl traceLine Map.empty (Split s 10)"


text \<open>
  The entry a line stands for, in the words of the specification: the line is trimmed; a
  line without \<open>=\<close> (an empty one too) stands for nothing; the key is the trimmed text before
  the first \<open>=\<close>, the value the trimmed text after it, with no treatment of \<open>#\<close>. As in
  the code, a line whose key is empty stands for nothing.
\<close>

definition trace_entry :: "gostring \<Rightarrow> (gostring \<times> gostring) option" where
  "trace_entry l =
     (let t = TrimSpace l in
      if 61 \<notin> set t then None
      else let k = TrimSpace (takeWhile (\<lambda>x. x \<noteq> 61) t);
               v = TrimSpace (tl (dropWhile (\<lambda>x. x \<noteq> 61) t))
           in if k = [] then None else Some (k, v))"



section \<open>Prefixes of net/netip\<close>

text \<open>
  \<open>netip.Prefix\<close> is an address and a number of bits, \<open>-1\<close> for an invalid prefix
  (\<open>Prefix.Bits\<close> returns \<open>-1\<close> then); \<open>zeroPrefix\<close> is \<open>Prefix{}\<close>. The functions below follow
  the package net/netip of the Go standard library: \<open>Addr.BitLen\<close>, \<open>Addr.Is4\<close>,
  \<open>Addr.WithZone("")\<close>, \<open>PrefixFrom\<close> and \<open>Prefix.Masked\<close> (through \<open>Addr.Prefix\<close>, which
  clears the host bits and gives the zero prefix when the bits are out of range).
\<close>

record Prefix =
  paddr :: Addr
  pbits :: int

definition zeroPrefix :: Prefix where
  "zeroPrefix = \<lparr>paddr = AddrZero, pbits = - 1\<rparr>"

definition BitLen :: "Addr \<Rightarrow> int" where
  "BitLen a = (case a of AddrZero \<Rightarrow> 0 | Addr4 w \<Rightarrow> 32 | Addr6 w z \<Rightarrow> 128)"

definition Is4 :: "Addr \<Rightarrow> bool" where
  "Is4 a = (case a of Addr4 w \<Rightarrow> True | _ \<Rightarrow> False)"

definition withoutZone :: "Addr \<Rightarrow> Addr" where
  "withoutZone a = (case a of Addr6 w z \<Rightarrow> Addr6 w [] | _ \<Rightarrow> a)"

definition PrefixFrom :: "Addr \<Rightarrow> int \<Rightarrow> Prefix" where
  "PrefixFrom a b =
     \<lparr>paddr = withoutZone a,
      pbits = (if a \<noteq> AddrZero \<and> 0 \<le> b \<and> b \<le> BitLen a then b else - 1)\<rparr>"

definition Masked :: "Prefix \<Rightarrow> Prefix" where
  "Masked p =
     (let b = pbits p in
      if b < 0 then zeroPrefix
      else case paddr p of
             AddrZero \<Rightarrow> zeroPrefix
           | Addr4 w \<Rightarrow>
               if b > 32 then zeroPrefix
               else PrefixFrom (Addr4 (w AND NOT (mask (nat (32 - b))))) b
           | Addr6 w z \<Rightarrow>
               if b > 128 then zeroPrefix
               else PrefixFrom (Addr6 (w AND NOT (mask (nat (128 - b)))) z) b)"

section \<open>Reading CIDR files (package cidr)\<close>

text \<open>
  The \<open>io.Reader\<close> given to \<open>ReadCIDRs\<close>: the text it delivers, and the error it reports
  after that text if it does not end with \<open>io.EOF\<close>.
\<close>

record Reader =
  rtext :: gostring
  rerr :: "failure option"

text \<open>
  \<open>bufio.Scanner\<close> with its default split function \<open>ScanLines\<close> and its default buffer:
  the tokens are the lines without their line feed and without one trailing carriage
  return; a last line without line feed is a token unless it is empty; a line of
  \<open>bufio.MaxScanTokenSize\<close> = 65536 bytes or more ends the scan with \<open>ErrTooLong\<close>.
  \<open>runeLen\<close> is the number of bytes of a code point in UTF-8. \<open>scan\<close> gives the tokens that
  \<open>sc.Scan()\<close> and \<open>sc.Text()\<close> deliver, and \<open>sc.Err()\<close> after the last one.
\<close>

definition runeLen :: "nat \<Rightarrow> nat" where
  "runeLen c = (if c < 0x80 then 1 else if c < 0x800 then 2 else if c < 0x10000 then 3 else 4)"

definition tooLong :: "gostring \<Rightarrow> bool" where
  "tooLong l = (65536 \<le> sum_list (map runeLen l))"

definition dropCR :: "gostring \<Rightarrow> gostring" where
  "dropCR l = (if l \<noteq> [] \<and> last l = 13 then butlast l else l)"

fun scanTokens :: "gostring list \<Rightarrow> gostring list \<times> failure option" where
  "scanTokens [] = ([], None)"
| "scanTokens [l] =
     (if l = [] then ([], None)
      else if tooLong l then ([], Some ErrTooLong)
      else ([dropCR l], None))"
| "scanTokens (l # ls) =
     (if tooLong l then ([], Some ErrTooLong)
      else case scanTokens ls of (ts, e) \<Rightarrow> (dropCR l # ts, e))"

definition scan :: "Reader \<Rightarrow> gostring list \<times> failure option" where
  "scan rd =
     (case scanTokens (Split (rtext rd) 10) of
        (ts, Some e) \<Rightarrow> (ts, Some e)
      | (ts, None) \<Rightarrow> (ts, rerr rd))"

text \<open>The loop of \<open>ReadCIDRs\<close> over the tokens, with \<open>netip.ParsePrefix\<close> as the parameter
  \<open>parse\<close>; 35 is \<open>#\<close>.\<close>

fun readLoop ::
  "(gostring \<Rightarrow> failure + Prefix) \<Rightarrow> Prefix list \<Rightarrow> gostring list \<Rightarrow> failure + Prefix list" where
  "readLoop parse out [] = Inr out"
| "readLoop parse out (t # ts) =
     (let line = TrimSpace t in
      if line = [] \<or> take 1 line = [35] then readLoop parse out ts
      else let line' = (if 35 \<in> set line
                        then TrimSpace (takeWhile (\<lambda>c. c \<noteq> 35) line) else line)
           in case parse line' of
                Inl e \<Rightarrow> Inl (ErrParseCidr line' e)
              | Inr p \<Rightarrow> readLoop parse (out @ [Masked p]) ts)"

definition ReadCIDRs :: "(gostring \<Rightarrow> failure + Prefix) \<Rightarrow> Reader \<Rightarrow> failure + Prefix list" where
  "ReadCIDRs parse rd =
     (case scan rd of (ts, e) \<Rightarrow>
        (case readLoop parse [] ts of
           Inl f \<Rightarrow> Inl f
         | Inr out \<Rightarrow> (case e of Some f \<Rightarrow> Inl f | None \<Rightarrow> Inr out)))"

text \<open>
  The file format in the words of the specification: on each line the text before the
  first \<open>#\<close>, trimmed, is a CIDR unless it is empty; the first one that does not parse is
  the error of the whole file; otherwise the result is the masked prefixes in order.
\<close>

definition cidr_text :: "gostring \<Rightarrow> gostring" where
  "cidr_text l = TrimSpace (takeWhile (\<lambda>c. c \<noteq> 35) l)"

definition cidrs_spec :: "(gostring \<Rightarrow> failure + Prefix) \<Rightarrow> gostring list \<Rightarrow> failure + Prefix list" where
  "cidrs_spec parse ls =
     (let cs = filter (\<lambda>c. c \<noteq> []) (map cidr_text ls) in
      case find (\<lambda>c. isl (parse c)) cs of
        Some c \<Rightarrow> Inl (ErrParseCidr c (projl (parse c)))
      | None \<Rightarrow> Inr (map (\<lambda>c. Masked (projr (parse c))) cs))"

section \<open>Splitting and sampling prefixes (package cidr)\<close>

text \<open>
  Go's \<open>int\<close> is taken to be 64 bits wide, as on amd64 and arm64; \<open>int64\<close> wraps the result
  of an \<open>int\<close> operation that can leave the range.
\<close>

definition int64 :: "int \<Rightarrow> int" where
  "int64 x = signed_take_bit 63 x"

text \<open>
  \<open>make([]T, 0, cap)\<close> is \<open>runtime.makeslice\<close>: it panics (\<open>cap out of range\<close>) when the
  capacity is negative or when \<open>cap\<close> elements take more than \<open>maxAlloc\<close> bytes, which is
  \<open>2^48\<close> on the 64-bit platforms; otherwise it allocates, and the program dies with
  \<open>out of memory\<close> when the bytes are not there. How many bytes the runtime can still
  get is the input \<open>avail\<close>. A \<open>netip.Prefix\<close> takes 32 bytes (a 128-bit address, the
  pointer of its zone, and its bits, padded).
\<close>

definition maxAlloc :: int where
  "maxAlloc = 2 ^ 48"

definition sizeofPrefix :: int where
  "sizeofPrefix = 32"

definition makeslice :: "nat \<Rightarrow> int \<Rightarrow> int \<Rightarrow> failure option" where
  "makeslice avail elemSize cap =
     (if cap < 0 \<or> elemSize * cap > maxAlloc then Some PanicMakeslice
      else if elemSize * cap > int avail then Some FatalOutOfMemory
      else None)"

text \<open>
  A \<open>[16]byte\<close> is a list of 16 bytes, the most significant first; \<open>word16\<close> is the
  128-bit number it holds and \<open>bytes16\<close> the bytes of a number. \<open>AddrFrom16\<close> and \<open>Addr.As16\<close>
  are those of net/netip (an IPv4 address as its IPv4-mapped IPv6 form, the zero address as
  zeros).
\<close>

definition word16 :: "8 word list \<Rightarrow> 128 word" where
  "word16 bs = word_of_int (horner_sum uint (2 ^ 8) (rev bs))"

definition AddrFrom16 :: "8 word list \<Rightarrow> Addr" where
  "AddrFrom16 bs = Addr6 (word16 bs) []"

definition bytes16 :: "128 word \<Rightarrow> 8 word list" where
  "bytes16 w = map (\<lambda>i. ucast (drop_bit (8 * (15 - i)) w)) [0..<16]"

definition As16 :: "Addr \<Rightarrow> 8 word list" where
  "As16 a = (case a of
       AddrZero \<Rightarrow> replicate 16 0
     | Addr4 w \<Rightarrow> bytes16 (push_bit 32 0xffff OR ucast w)
     | Addr6 w z \<Rightarrow> bytes16 w)"

definition setBitFromLSB :: "8 word list \<Rightarrow> int \<Rightarrow> 8 word list" where
  "setBitFromLSB dst posFromLSB =
     (if posFromLSB < 0 \<or> posFromLSB \<ge> 128 then dst
      else let posFromMSB = nat (127 - posFromLSB);
               byteIdx = posFromMSB div 8;
               bitInByte = 7 - posFromMSB mod 8
           in dst[byteIdx := dst ! byteIdx OR push_bit bitInByte 1])"

definition orShiftedIndex :: "8 word list \<Rightarrow> 64 word \<Rightarrow> int \<Rightarrow> int \<Rightarrow> 8 word list" where
  "orShiftedIndex dst index shiftFromLSB bits =
     fold (\<lambda>b d. if drop_bit b index AND 1 = 1
                  then setBitFromLSB d (int64 (shiftFromLSB + int b)) else d)
          [0..<nat bits] dst"

text \<open>
  \<open>childPrefixAddr\<close>: \<open>uint32(index) << shift\<close> panics for a negative shift count; the
  IPv6 branch is also the one taken for the zero address.
\<close>

definition childPrefixAddr :: "Addr \<Rightarrow> int \<Rightarrow> int \<Rightarrow> int \<Rightarrow> failure + Addr" where
  "childPrefixAddr base parentBits step index =
     (let newBits = int64 (parentBits + step) in
      case base of
        Addr4 v \<Rightarrow>
          (let shift = int64 (32 - newBits) in
           if shift < 0 then Inl PanicNegativeShift
           else Inr (Addr4 (v + push_bit (nat shift) (word_of_int index))))
      | _ \<Rightarrow>
          (let shift = int64 (128 - newBits) in
           Inr (AddrFrom16 (orShiftedIndex (As16 base) (word_of_int index) shift step))))"

text \<open>The loop of \<open>SplitPrefix\<close> over the indices \<open>0 .. parts - 1\<close>.\<close>

fun splitLoop :: "Addr \<Rightarrow> int \<Rightarrow> int \<Rightarrow> int \<Rightarrow> nat list \<Rightarrow> failure + Prefix list" where
  "splitLoop base bits step newBits [] = Inr []"
| "splitLoop base bits step newBits (i # is) =
     (case childPrefixAddr base bits step (int i) of
        Inl e \<Rightarrow> Inl e
      | Inr childAddr \<Rightarrow>
          (case splitLoop base bits step newBits is of
             Inl e \<Rightarrow> Inl e
           | Inr out \<Rightarrow> Inr (Masked (PrefixFrom childAddr newBits) # out)))"

text \<open>
  \<open>SplitPrefix\<close>; \<open>parts := 1 << step\<close> is an \<open>int\<close>, so it is \<open>-2^63\<close> for the step 63 and
  0 for a step of 64 or more. The slice is made with room for \<open>parts\<close> prefixes, so that
  \<open>append\<close> never allocates.
\<close>

definition SplitPrefix :: "nat \<Rightarrow> Prefix \<Rightarrow> int \<Rightarrow> failure + Prefix list" where
  "SplitPrefix avail p0 step =
     (let p = Masked p0 in
      if step \<le> 0 then Inl (ErrInvalidStep step)
      else let newBits = int64 (pbits p + step);
               maxBits = (if Is4 (paddr p) then 32 else 128)
           in if newBits > maxBits then Inl (ErrCannotSplit (paddr p) (pbits p) step)
              else let parts = int64 (push_bit (nat step) 1)
                   in case makeslice avail sizeofPrefix parts of
                        Some e \<Rightarrow> Inl e
                      | None \<Rightarrow> splitLoop (paddr p) (pbits p) step newBits [0..<nat parts])"


text \<open>
  The notions of the specification: a valid prefix (\<open>Prefix.IsValid\<close>, an IPv4 or IPv6
  address without zone and a number of bits within the family), \<open>family_max_bits\<close>, the
  address \<open>network | k\<close>, \<open>Prefix.Contains\<close> of net/netip, the \<open>i\<close>-th child the
  specification describes, and the index of the child that an address falls into.
\<close>

definition valid_prefix :: "Prefix \<Rightarrow> bool" where
  "valid_prefix p =
     (case paddr p of
        AddrZero \<Rightarrow> False
      | Addr4 w \<Rightarrow> 0 \<le> pbits p \<and> pbits p \<le> 32
      | Addr6 w z \<Rightarrow> z = [] \<and> 0 \<le> pbits p \<and> pbits p \<le> 128)"

definition maxBits :: "Prefix \<Rightarrow> int" where
  "maxBits p = (if Is4 (paddr p) then 32 else 128)"

definition addrOr :: "Addr \<Rightarrow> nat \<Rightarrow> Addr" where
  "addrOr a k =
     (case a of
        AddrZero \<Rightarrow> AddrZero
      | Addr4 w \<Rightarrow> Addr4 (w OR of_nat k)
      | Addr6 w z \<Rightarrow> Addr6 (w OR of_nat k) z)"

definition Contains :: "Prefix \<Rightarrow> Addr \<Rightarrow> bool" where
  "Contains p ip =
     (0 \<le> pbits p \<and>
      (case (paddr p, ip) of
         (Addr4 v, Addr4 a) \<Rightarrow> drop_bit (nat (32 - pbits p)) (a XOR v) = 0
       | (Addr6 w z', Addr6 a z) \<Rightarrow>
           z = [] \<and> (a XOR w) AND NOT (mask (nat (128 - pbits p))) = 0
       | _ \<Rightarrow> False))"

definition child :: "Prefix \<Rightarrow> int \<Rightarrow> nat \<Rightarrow> Prefix" where
  "child p s i =
     \<lparr>paddr = addrOr (paddr p) (push_bit (nat (maxBits p - (pbits p + s))) i),
      pbits = pbits p + s\<rparr>"

definition childIndex :: "Prefix \<Rightarrow> int \<Rightarrow> Addr \<Rightarrow> nat" where
  "childIndex p s a =
     (case a of
        AddrZero \<Rightarrow> 0
      | Addr4 x \<Rightarrow> unat (take_bit (nat s) (drop_bit (nat (32 - (pbits p + s))) x))
      | Addr6 x z \<Rightarrow> unat (take_bit (nat s) (drop_bit (nat (128 - (pbits p + s))) x)))"

text \<open>
  A \<open>*math/rand.Rand\<close> is an object with a hidden state: what \<open>r.Uint64()\<close> returns next and
  the generator after that call, what \<open>r.Intn(256)\<close> returns next and the generator after
  that call. \<open>lcg\<close> is one such generator, used for examples.
\<close>

codatatype Rand =
  Rand (Uint64: "64 word") (afterUint64: Rand) (Intn256: int) (afterIntn256: Rand)

primcorec lcg :: "64 word \<Rightarrow> Rand" where
  "lcg x = Rand x (lcg (x * 6364136223846793005 + 1442695040888963407))
                (uint (drop_bit 32 x) mod 256) (lcg (x * 6364136223846793005 + 1442695040888963407))"

text \<open>
  \<open>randomAddr4\<close>: \<open>Addr.As4\<close> panics on an address that is not IPv4, and a shift by a
  negative count panics; neither happens after \<open>Masked\<close> and \<open>Is4\<close>.
\<close>

definition randomAddr4 :: "Prefix \<Rightarrow> Rand \<Rightarrow> failure + Addr \<times> Rand" where
  "randomAddr4 p r =
     (case paddr p of
        Addr4 base \<Rightarrow>
          (let hostBits = 32 - pbits p in
           if hostBits = 0 then Inr (Addr4 (base OR 0), r)
           else if hostBits < 0 then Inl PanicNegativeShift
           else let host = ucast (Uint64 r AND (push_bit (nat hostBits) 1 - 1)) :: 32 word
                in Inr (Addr4 (base OR host), afterUint64 r))
      | _ \<Rightarrow> Inl PanicAs4)"

text \<open>\<open>keepHostBits\<close>, on the 16 bytes of \<open>rand128\<close>; an index of 16 or more panics.\<close>

definition keepHostBits :: "8 word list \<Rightarrow> int \<Rightarrow> failure + 8 word list" where
  "keepHostBits b hostBits =
     (let topBits = 128 - hostBits in
      if topBits \<le> 0 then Inr b
      else let fullBytes = nat (topBits div 8); remBits = nat (topBits mod 8) in
        if fullBytes > 16 then Inl PanicIndexOutOfRange
        else let b1 = fold (\<lambda>i b. b[i := 0]) [0..<fullBytes] b in
          if remBits > 0 \<and> fullBytes < 16
          then Inr (b1[fullBytes := b1 ! fullBytes AND drop_bit remBits 0xFF])
          else Inr b1)"

definition applyHostBits :: "8 word list \<Rightarrow> 8 word list \<Rightarrow> 8 word list" where
  "applyHostBits base host = fold (\<lambda>i b. b[i := b ! i OR host ! i]) [0..<16] base"

text \<open>The fallback loop of \<open>randomAddr6\<close>: 16 times \<open>rand128[i] = byte(r.Intn(256))\<close>.\<close>

definition fillRand :: "Rand \<Rightarrow> 8 word list \<times> Rand" where
  "fillRand r =
     fold (\<lambda>i (b, r). (b[i := word_of_int (Intn256 r)], afterIntn256 r)) [0..<16]
       (replicate 16 0, r)"

text \<open>
  \<open>randomAddr6\<close> reads the process-wide source \<open>crypto/rand\<close>, which is no argument of the Go
  function: the argument \<open>cr\<close> is what \<open>rand.Read\<close> does at this call, \<open>Some c\<close> when it fills
  the 16 bytes (with the bytes of \<open>c\<close>) and \<open>None\<close> when it returns an error.
\<close>

definition randomAddr6 :: "128 word option \<Rightarrow> Prefix \<Rightarrow> Rand \<Rightarrow> failure + Addr \<times> Rand" where
  "randomAddr6 cr p r =
     (let a = As16 (paddr p); hostBits = 128 - pbits p in
      if hostBits \<le> 0 then Inr (AddrFrom16 a, r)
      else case (case cr of Some c \<Rightarrow> (bytes16 c, r) | None \<Rightarrow> fillRand r) of
        (rand128, r') \<Rightarrow>
          (case keepHostBits rand128 hostBits of
             Inl e \<Rightarrow> Inl e
           | Inr host \<Rightarrow> Inr (AddrFrom16 (applyHostBits a host), r')))"

definition RandomAddr :: "128 word option \<Rightarrow> Prefix \<Rightarrow> Rand \<Rightarrow> failure + Addr \<times> Rand" where
  "RandomAddr cr p0 r =
     (let p = Masked p0 in
      if Is4 (paddr p) then randomAddr4 p r else randomAddr6 cr p r)"

section \<open>The probe client (package probe)\<close>













section \<open>Properties of the top-N collection\<close>

lemma firstIndex_None: "firstIndex P xs = None \<longleftrightarrow> (\<forall>x \<in> set xs. \<not> P x)"
  by (induction xs) auto

lemma firstIndex_Some:
  "firstIndex P xs = Some i \<Longrightarrow> i < length xs \<and> P (xs ! i) \<and> (\<forall>j < i. \<not> P (xs ! j))"
proof (induction xs arbitrary: i)
  case Nil
  then show ?case by simp
next
  case (Cons x xs)
  show ?case
  proof (cases "P x")
    case True
    with Cons.prems show ?thesis by simp
  next
    case False
    with Cons.prems obtain k where k: "firstIndex P xs = Some k" "i = Suc k"
      by auto
    from Cons.IH [OF k(1)] False k(2) show ?thesis
      by (auto simp: less_Suc_eq_0_disj)
  qed
qed

lemma trimLocked_nonneg:
  "0 \<le> n t \<Longrightarrow> trimLocked t = Inr (t\<lparr>buf := take (nat (n t)) (buf t)\<rparr>)"
  by (simp add: trimLocked_def)

lemma Consider_pos:
  "0 < n t \<Longrightarrow> Consider t r = Inr (t\<lparr>buf := take (nat (n t)) (sort_key ScoreMS (upd (buf t) r))\<rparr>)"
  by (simp add: Consider_def upd_def trimLocked_nonneg sortLocked_def split: option.split)

lemma upd_spec:
  assumes "distinct (map IP b)"
  shows "upd b r = (if \<exists>e \<in> set b. IP e = IP r
        then map (\<lambda>e. if IP e = IP r \<and> ScoreMS r < ScoreMS e then r else e) b
        else b @ [r])"
proof (cases "firstIndex (\<lambda>e. IP e = IP r) b")
  case None
  then have "\<forall>x \<in> set b. IP x \<noteq> IP r" by (simp add: firstIndex_None)
  with None show ?thesis by (simp add: upd_def)
next
  case (Some i)
  from firstIndex_Some [OF Some] have i: "i < length b" "IP (b ! i) = IP r" by auto
  then have ex: "\<exists>e \<in> set b. IP e = IP r" by (metis nth_mem)
  have other: "IP (b ! j) \<noteq> IP r" if "j < length b" "j \<noteq> i" for j
    using assms that i by (metis distinct_conv_nth length_map nth_map)
  have "map (\<lambda>e. if IP e = IP r \<and> ScoreMS r < ScoreMS e then r else e) b
        = (if ScoreMS r < ScoreMS (b ! i) then b[i := r] else b)"
    by (rule nth_equalityI) (use i other in \<open>auto simp: nth_list_update\<close>)
  with Some ex show ?thesis by (simp add: upd_def)
qed

lemma map_IP_upd:
  "map IP (upd b r) = (if IP r \<in> set (map IP b) then map IP b else map IP b @ [IP r])"
proof (cases "firstIndex (\<lambda>e. IP e = IP r) b")
  case None
  then have "\<forall>x \<in> set b. IP x \<noteq> IP r" by (simp add: firstIndex_None)
  with None show ?thesis by (auto simp: upd_def)
next
  case (Some i)
  from firstIndex_Some [OF Some] have i: "i < length b" "IP (b ! i) = IP r" by auto
  then have "IP r \<in> set (map IP b)" by (metis length_map nth_map nth_mem)
  moreover have "map IP (b[i := r]) = map IP b"
    using i by (simp add: map_update list_update_same_conv)
  ultimately show ?thesis using Some by (simp add: upd_def)
qed

lemma distinct_upd: "distinct (map IP b) \<Longrightarrow> distinct (map IP (upd b r))"
  by (simp add: map_IP_upd)

lemma distinct_map_sort_key: "distinct (map g (sort_key f xs)) = distinct (map g xs)"
proof -
  have "mset (map g (sort_key f xs)) = mset (map g xs)" by simp
  then show ?thesis by (rule mset_eq_imp_distinct_iff)
qed

lemma distinct_map_take: "distinct (map g xs) \<Longrightarrow> distinct (map g (take k xs))"
  by (simp add: take_map [symmetric])

lemma sorted_map_take: "sorted (map g xs) \<Longrightarrow> sorted (map g (take k xs))"
  by (simp add: take_map [symmetric] sorted_wrt_take)

lemma Consider_nonpos: "n t \<le> 0 \<Longrightarrow> Consider t r = Inr t"
  by (simp add: Consider_def)

lemma Consider_inv:
  assumes "topN_inv t" "Consider t r = Inr t'"
  shows "topN_inv t'"
proof (cases "0 < n t")
  case False
  with assms show ?thesis by (simp add: Consider_nonpos)
next
  case True
  with assms(2) have t': "t' = t\<lparr>buf := take (nat (n t)) (sort_key ScoreMS (upd (buf t) r))\<rparr>"
    by (simp add: Consider_pos)
  from assms(1) have "distinct (map IP (buf t))" by (simp add: topN_inv_def)
  then have "distinct (map IP (buf t'))"
    unfolding t' by (simp add: distinct_map_take distinct_map_sort_key distinct_upd)
  moreover have "sorted (map ScoreMS (buf t'))"
    unfolding t' by (simp add: sorted_map_take)
  moreover have "int (length (buf t')) \<le> n t'" "0 \<le> n t'"
    unfolding t' using True by simp_all
  ultimately show ?thesis by (simp add: topN_inv_def)
qed

lemma considerAll_inv:
  "topN_inv t \<Longrightarrow> considerAll t rs = Inr t' \<Longrightarrow> topN_inv t'"
proof (induction rs arbitrary: t)
  case Nil
  then show ?case by simp
next
  case (Cons r rs)
  from Cons.prems(2) obtain t1 where t1: "Consider t r = Inr t1" "considerAll t1 rs = Inr t'"
    by (auto split: sum.splits)
  from Consider_inv [OF Cons.prems(1) t1(1)] t1(2) show ?case by (rule Cons.IH)
qed










lemma newTopN_Inr: "newTopN k = Inr t \<Longrightarrow> 0 \<le> k \<and> t = \<lparr>n = k, buf = []\<rparr>"
  by (auto simp: newTopN_def split: if_splits)

lemma newTopN_inv: "newTopN k = Inr t \<Longrightarrow> topN_inv t"
  by (auto simp: topN_inv_def dest: newTopN_Inr)

lemma considerAll_nonpos: "n t \<le> 0 \<Longrightarrow> considerAll t rs = Inr t"
  by (induction rs) (simp_all add: Consider_nonpos)

text \<open>
  Claim C3. On every heap that \<open>newTopN\<close> and a sequence of \<open>Consider\<close> calls build,
  \<open>Consider\<close> returns normally and leaves in the buffer exactly what the algorithm of the
  specification computes from it: the entry with the IP of \<open>r\<close> replaced iff the score of \<open>r\<close>
  is strictly less, \<open>r\<close> appended when no entry has its IP, then the stable sort ascending
  by score and the truncation to \<open>n\<close>. Scenario S4: (1.2.3.4, 50), (1.2.3.4, 40),
  (1.2.3.4, 60) into a heap of size 3 leave the single entry (1.2.3.4, 40).
\<close>

theorem Consider_implements_spec:
  assumes "newTopN k = Inr t0" and "considerAll t0 rs = Inr t"
  shows "Consider t r = Inr (t\<lparr>buf := consider_spec (n t) (buf t) r\<rparr>) \<and>
    (\<exists>h0 h3. newTopN 3 = Inr h0 \<and>
       considerAll h0
         [\<lparr>IP = Addr4 0x01020304, ScoreMS = 50, rest = ()\<rparr>,
          \<lparr>IP = Addr4 0x01020304, ScoreMS = 40, rest = ()\<rparr>,
          \<lparr>IP = Addr4 0x01020304, ScoreMS = 60, rest = ()\<rparr>] = Inr h3 \<and>
       Snapshot h3 = [\<lparr>IP = Addr4 0x01020304, ScoreMS = 40, rest = ()\<rparr>])"
proof
  from newTopN_inv [OF assms(1)] assms(2) have inv: "topN_inv t" by (rule considerAll_inv)
  then have d: "distinct (map IP (buf t))" and len: "int (length (buf t)) \<le> n t"
    by (simp_all add: topN_inv_def)
  show "Consider t r = Inr (t\<lparr>buf := consider_spec (n t) (buf t) r\<rparr>)"
  proof (cases "0 < n t")
    case True
    then show ?thesis by (simp add: Consider_pos consider_spec_def upd_spec [OF d])
  next
    case False
    with len have "buf t = []" by (cases "buf t") auto
    with False show ?thesis by (simp add: Consider_nonpos consider_spec_def)
  qed
next
  show "\<exists>h0 h3. newTopN 3 = Inr h0 \<and>
       considerAll h0
         [\<lparr>IP = Addr4 0x01020304, ScoreMS = 50, rest = ()\<rparr>,
          \<lparr>IP = Addr4 0x01020304, ScoreMS = 40, rest = ()\<rparr>,
          \<lparr>IP = Addr4 0x01020304, ScoreMS = 60, rest = ()\<rparr>] = Inr h3 \<and>
       Snapshot h3 = [\<lparr>IP = Addr4 0x01020304, ScoreMS = 40, rest = ()\<rparr>]"
    by (simp add: newTopN_def Consider_def trimLocked_def sortLocked_def Snapshot_def)
qed

theorem Consider_implements_spec_witness:
  "Consider \<lparr>n = 2, buf = [\<lparr>IP = Addr4 1, ScoreMS = 5, rest = ''a''\<rparr>,
                            \<lparr>IP = Addr4 2, ScoreMS = 9, rest = ''b''\<rparr>]\<rparr>
            \<lparr>IP = Addr4 2, ScoreMS = 3, rest = ''c''\<rparr>
   = Inr \<lparr>n = 2, buf = [\<lparr>IP = Addr4 2, ScoreMS = 3, rest = ''c''\<rparr>,
                          \<lparr>IP = Addr4 1, ScoreMS = 5, rest = ''a''\<rparr>]\<rparr>"
proof -
  have h1: "newTopN 2 = Inr \<lparr>n = 2, buf = ([] :: string TopResult list)\<rparr>"
    by (simp add: newTopN_def)
  have h2: "considerAll \<lparr>n = 2, buf = []\<rparr>
      [\<lparr>IP = Addr4 1, ScoreMS = 5, rest = ''a''\<rparr>, \<lparr>IP = Addr4 2, ScoreMS = 9, rest = ''b''\<rparr>]
    = Inr \<lparr>n = 2, buf = [\<lparr>IP = Addr4 1, ScoreMS = 5, rest = ''a''\<rparr>,
                           \<lparr>IP = Addr4 2, ScoreMS = 9, rest = ''b''\<rparr>]\<rparr>"
    by (simp add: Consider_def trimLocked_def sortLocked_def)
  from Consider_implements_spec [OF h1 h2, of "\<lparr>IP = Addr4 2, ScoreMS = 3, rest = ''c''\<rparr>"]
  show ?thesis by (simp add: consider_spec_def)
qed





text \<open>
  Claim C10. In a heap whose capacity \<open>n\<close> is at most 0, every \<open>Consider\<close> call returns
  normally and leaves the state as it was, and so does every sequence of calls; when
  \<open>newTopN\<close> built the heap, \<open>Snapshot\<close> is the empty list before and after.
\<close>

theorem Consider_noop_without_capacity:
  "(n t \<le> 0 \<longrightarrow> Consider t r = Inr t \<and> considerAll t rs = Inr t) \<and>
   (k \<le> 0 \<and> newTopN k = Inr t0 \<longrightarrow>
      Snapshot t0 = [] \<and> (\<exists>t'. considerAll t0 rs = Inr t' \<and> Snapshot t' = []))"
proof (intro conjI impI)
  assume "n t \<le> 0"
  then show "Consider t r = Inr t" by (rule Consider_nonpos)
next
  assume "n t \<le> 0"
  then show "considerAll t rs = Inr t" by (rule considerAll_nonpos)
next
  assume a: "k \<le> 0 \<and> newTopN k = Inr t0"
  then have t0: "t0 = \<lparr>n = k, buf = []\<rparr>" using newTopN_Inr by blast
  then show "Snapshot t0 = []" by (simp add: Snapshot_def)
  from a t0 have "considerAll t0 rs = Inr t0" by (simp add: considerAll_nonpos)
  with t0 show "\<exists>t'. considerAll t0 rs = Inr t' \<and> Snapshot t' = []"
    by (simp add: Snapshot_def)
qed

theorem Consider_noop_without_capacity_witness:
  "Consider \<lparr>n = 0, buf = []\<rparr> \<lparr>IP = Addr4 1, ScoreMS = 5, rest = ()\<rparr> = Inr \<lparr>n = 0, buf = []\<rparr> \<and>
   considerAll \<lparr>n = 0, buf = []\<rparr>
     [\<lparr>IP = Addr4 1, ScoreMS = 5, rest = ()\<rparr>, \<lparr>IP = Addr4 2, ScoreMS = 3, rest = ()\<rparr>]
     = Inr \<lparr>n = 0, buf = []\<rparr> \<and>
   newTopN 0 = Inr \<lparr>n = 0, buf = ([] :: unit TopResult list)\<rparr> \<and>
   Snapshot \<lparr>n = 0, buf = ([] :: unit TopResult list)\<rparr> = []"
proof -
  have h: "newTopN 0 = Inr \<lparr>n = 0, buf = ([] :: unit TopResult list)\<rparr>"
    by (simp add: newTopN_def)
  from Consider_noop_without_capacity
    [of "\<lparr>n = 0, buf = ([] :: unit TopResult list)\<rparr>" "\<lparr>IP = Addr4 1, ScoreMS = 5, rest = ()\<rparr>"
        "[\<lparr>IP = Addr4 1, ScoreMS = 5, rest = ()\<rparr>, \<lparr>IP = Addr4 2, ScoreMS = 3, rest = ()\<rparr>]"
        0 "\<lparr>n = 0, buf = ([] :: unit TopResult list)\<rparr>"] h
  show ?thesis by (simp add: Snapshot_def Consider_def)
qed

section \<open>Properties of the trace body parser\<close>

lemma traceLine_entry:
  "traceLine m l = (case trace_entry l of None \<Rightarrow> m | Some (k, v) \<Rightarrow> m(k \<mapsto> v))"
  by (auto simp: traceLine_def trace_entry_def Cut_def Let_def)

lemma foldl_traceLine:
  "foldl traceLine m ls = m ++ map_of (rev (List.map_filter trace_entry ls))"
proof (induction ls arbitrary: m)
  case Nil
  then show ?case by (simp add: List.map_filter_simps)
next
  case (Cons l ls)
  show ?case
  proof (cases "trace_entry l")
    case None
    then have "traceLine m l = m" by (simp add: traceLine_entry)
    with None show ?thesis by (simp add: Cons.IH List.map_filter_simps)
  next
    case (Some kv)
    obtain k v where kv: "kv = (k, v)" by (cases kv)
    have step: "traceLine m l = m(k \<mapsto> v)" using Some kv by (simp add: traceLine_entry)
    have "foldl traceLine m (l # ls) = foldl traceLine (m(k \<mapsto> v)) ls"
      by (simp add: step)
    also have "\<dots> = m(k \<mapsto> v) ++ map_of (rev (List.map_filter trace_entry ls))"
      by (rule Cons.IH)
    also have "\<dots> = m ++ map_of (rev (List.map_filter trace_entry ls) @ [(k, v)])"
      by (rule ext) (auto simp: map_add_def split: option.split)
    finally show ?thesis using Some kv by (simp add: List.map_filter_simps)
  qed
qed

lemma parseTrace_closed:
  "parseTrace s = map_of (rev (List.map_filter trace_entry (Split s 10)))"
  by (simp add: parseTrace_def foldl_traceLine)

lemma splitFirst_append:
  "splitFirst (a @ c # b) c = (fst (splitFirst a c), snd (splitFirst a c) @ Split b c)"
  by (induction a) (auto simp: Split_def split: prod.splits)

lemma Split_append: "Split (a @ c # b) c = Split a c @ Split b c"
  by (simp add: Split_def splitFirst_append split: prod.splits)

lemma splitFirst_no_sep: "c \<notin> set s \<Longrightarrow> splitFirst s c = (s, [])"
  by (induction s) auto

lemma Split_no_sep: "c \<notin> set s \<Longrightarrow> Split s c = [s]"
  by (simp add: Split_def splitFirst_no_sep)

lemma parseTrace_append:
  "parseTrace (a @ 10 # b) = parseTrace a ++ parseTrace b"
  by (simp add: parseTrace_closed Split_append List.map_filter_def)

lemma TrimSpace_id:
  assumes "s \<noteq> []" "\<not> isSpace (hd s)" "\<not> isSpace (last s)"
  shows "TrimSpace s = s"
proof -
  from assms(1,2) have "dropWhile isSpace s = s" by (cases s) auto
  moreover from assms(1,3) have "dropWhile isSpace (rev s) = rev s"
    by (cases "rev s") (auto simp: last_rev [symmetric] hd_rev)
  ultimately show ?thesis by (simp add: TrimSpace_def)
qed

lemma TrimSpace_ends:
  assumes "TrimSpace s = s" "s \<noteq> []"
  shows "\<not> isSpace (hd s) \<and> \<not> isSpace (last s)"
proof -
  define u where "u = dropWhile isSpace (rev (dropWhile isSpace s))"
  have s: "s = rev u" using assms(1) by (simp add: TrimSpace_def u_def)
  with assms(2) have "u \<noteq> []" by auto
  then have "\<not> isSpace (hd u)" unfolding u_def by (metis hd_dropWhile)
  then have l: "\<not> isSpace (last s)" using s \<open>u \<noteq> []\<close> by (simp add: last_rev)
  have "dropWhile isSpace s \<noteq> []"
  proof
    assume "dropWhile isSpace s = []"
    then have "u = []" by (simp only: u_def rev.simps dropWhile.simps)
    with \<open>u \<noteq> []\<close> show False by simp
  qed
  then have "\<not> isSpace (hd (dropWhile isSpace s))" by (metis hd_dropWhile)
  moreover have "dropWhile isSpace s = s"
  proof (rule ccontr)
    assume "dropWhile isSpace s \<noteq> s"
    then have "length (dropWhile isSpace s) < length s"
      by (metis dropWhile_eq_drop length_drop diff_less length_greater_0_conv assms(2) drop0 gr0I)
    moreover have "length u \<le> length (dropWhile isSpace s)"
      unfolding u_def by (metis length_dropWhile_le length_rev)
    ultimately show False using s by simp
  qed
  ultimately show ?thesis using l by simp
qed


lemma TrimSpace_pad:
  assumes "\<forall>c \<in> set w1. isSpace c" "\<forall>c \<in> set w2. isSpace c" "TrimSpace x = x"
  shows "TrimSpace (w1 @ x @ w2) = x"
proof (cases "x = []")
  case True
  with assms(1,2) have e: "dropWhile isSpace (w1 @ x @ w2) = []"
    by (subst dropWhile_eq_Nil_conv) auto
  show ?thesis unfolding TrimSpace_def e using True by simp
next
  case False
  from TrimSpace_ends [OF assms(3) False]
  have h: "\<not> isSpace (hd x)" and l: "\<not> isSpace (last x)" by simp_all
  have "dropWhile isSpace (w1 @ x @ w2) = dropWhile isSpace (x @ w2)"
    using dropWhile_append2 [of w1 isSpace "x @ w2"] assms(1) by simp
  also have "\<dots> = x @ w2" using False h by (cases x) auto
  finally have 1: "dropWhile isSpace (w1 @ x @ w2) = x @ w2" .
  have "dropWhile isSpace (rev (x @ w2)) = dropWhile isSpace (rev x)"
    using dropWhile_append2 [of "rev w2" isSpace "rev x"] assms(2) by simp
  also have "\<dots> = rev x" using False l by (cases "rev x") (auto simp: hd_rev)
  finally show ?thesis by (simp add: TrimSpace_def 1)
qed

lemma trace_entry_padded:
  assumes k: "k \<noteq> []" "TrimSpace k = k" "61 \<notin> set k"
    and v: "TrimSpace v = v"
    and w: "\<forall>c \<in> set (w1 @ w2 @ w3 @ w4). isSpace c"
  shows "trace_entry (w1 @ k @ w2 @ 61 # w3 @ v @ w4) = Some (k, v)"
proof -
  define y where "y = (if v = [] then [] else w3 @ v)"
  define z where "z = (if v = [] then w3 @ w4 else w4)"
  define x where "x = k @ w2 @ 61 # y"
  have sp: "\<forall>c \<in> set w1. isSpace c" "\<forall>c \<in> set w2. isSpace c"
    "\<forall>c \<in> set w3. isSpace c" "\<forall>c \<in> set z. isSpace c"
    using w by (auto simp: z_def)
  have n61: "\<not> isSpace 61" by (simp add: isSpace_def)
  have line: "w1 @ k @ w2 @ 61 # w3 @ v @ w4 = w1 @ x @ z"
    by (simp add: x_def y_def z_def)
  have hx: "\<not> isSpace (hd x)" using TrimSpace_ends [OF k(2,1)] k(1) by (simp add: x_def)
  have lx: "\<not> isSpace (last x)"
  proof (cases "v = []")
    case True
    with n61 show ?thesis by (simp add: x_def y_def)
  next
    case False
    with TrimSpace_ends [OF v False] show ?thesis by (simp add: x_def y_def)
  qed
  have "x \<noteq> []" by (simp add: x_def)
  then have "TrimSpace x = x" using hx lx by (rule TrimSpace_id)
  with sp(1,4) have t: "TrimSpace (w1 @ x @ z) = x" by (rule TrimSpace_pad)
  have no61: "\<forall>c \<in> set (k @ w2). c \<noteq> 61" using k(3) sp(2) n61 by auto
  then have tw: "takeWhile (\<lambda>c. c \<noteq> 61) x = k @ w2"
    using takeWhile_append2 [of "k @ w2" "\<lambda>c. c \<noteq> 61" "61 # y"] by (simp add: x_def)
  from no61 have dw: "dropWhile (\<lambda>c. c \<noteq> 61) x = 61 # y"
    using dropWhile_append2 [of "k @ w2" "\<lambda>c. c \<noteq> 61" "61 # y"] by (simp add: x_def)
  have tk: "TrimSpace (k @ w2) = k"
    using TrimSpace_pad [of "[]" w2 k] sp(2) k(2) by simp
  have tv: "TrimSpace y = v"
  proof (cases "v = []")
    case True
    then show ?thesis by (simp add: y_def TrimSpace_def)
  next
    case False
    then show ?thesis using TrimSpace_pad [of w3 "[]" v] sp(3) v by (simp add: y_def)
  qed
  have "61 \<in> set x" by (simp add: x_def)
  then show ?thesis
    unfolding line by (simp add: trace_entry_def t tw dw tk tv k(1))
qed

lemma parseTrace_padded:
  assumes k: "k \<noteq> []" "TrimSpace k = k" "61 \<notin> set k" "10 \<notin> set k"
    and v: "TrimSpace v = v" "10 \<notin> set v"
    and w: "\<forall>c \<in> set (w1 @ w2 @ w3 @ w4). isSpace c \<and> c \<noteq> 10"
  shows "parseTrace (w1 @ k @ w2 @ 61 # w3 @ v @ w4) = [k \<mapsto> v]"
proof -
  let ?line = "w1 @ k @ w2 @ 61 # w3 @ v @ w4"
  have "10 \<notin> set ?line" using k(4) v(2) w by auto
  then have split: "Split ?line 10 = [?line]" by (rule Split_no_sep)
  have "\<forall>c \<in> set (w1 @ w2 @ w3 @ w4). isSpace c" using w by blast
  from trace_entry_padded [OF k(1,2,3) v(1) this]
  show ?thesis by (simp add: parseTrace_closed split List.map_filter_simps)
qed

lemma set_splitFirst:
  "set (fst (splitFirst s c)) \<subseteq> set s \<and> (\<forall>x \<in> set (snd (splitFirst s c)). set x \<subseteq> set s)"
  by (induction s) (auto split: prod.splits)

lemma set_Split: "x \<in> set (Split s c) \<Longrightarrow> set x \<subseteq> set s"
  using set_splitFirst [of s c] by (cases "splitFirst s c") (auto simp: Split_def)

lemma set_TrimSpace: "set (TrimSpace s) \<subseteq> set s"
proof -
  have "set (dropWhile isSpace (rev (dropWhile isSpace s))) \<subseteq> set (rev (dropWhile isSpace s))"
    by (meson set_dropWhileD subsetI)
  also have "\<dots> \<subseteq> set s" by (auto dest: set_dropWhileD)
  finally show ?thesis by (simp add: TrimSpace_def)
qed

lemma trace_entry_malformed: "61 \<notin> set l \<Longrightarrow> trace_entry l = None"
  using set_TrimSpace [of l] by (auto simp: trace_entry_def Let_def)

lemma parseTrace_malformed: "61 \<notin> set s \<Longrightarrow> parseTrace s = Map.empty"
proof -
  assume a: "61 \<notin> set s"
  have "\<forall>l \<in> set (Split s 10). trace_entry l = None"
    using a set_Split trace_entry_malformed by blast
  then have "List.map_filter trace_entry (Split s 10) = []"
    by (induction "Split s 10" arbitrary: s) (auto simp: List.map_filter_def)
  then show ?thesis by (simp add: parseTrace_closed)
qed

text \<open>
  Claim C7. For every input \<open>s\<close>, \<open>parseTrace s\<close> is the map of the entries of the lines
  of \<open>s\<close> (the segments between line feeds), a later line overriding an earlier one with
  the same key: parsing two texts joined by a line feed gives the second map laid over
  the first. A line without \<open>=\<close> contributes nothing and can be deleted. A line made of a
  key, \<open>=\<close> and a value, with any white space around the line, the key and the value,
  yields exactly that key and that value; the key and the value may contain \<open>#\<close>, which is
  kept as it is.
\<close>

theorem parseTrace_lines_trimmed_last_wins:
  "parseTrace s = map_of (rev (List.map_filter trace_entry (Split s 10))) \<and>
   parseTrace (a @ 10 # b) = parseTrace a ++ parseTrace b \<and>
   (61 \<notin> set l \<longrightarrow> parseTrace l = Map.empty \<and>
      parseTrace (a @ 10 # l @ 10 # b) = parseTrace (a @ 10 # b)) \<and>
   (k \<noteq> [] \<and> TrimSpace k = k \<and> 61 \<notin> set k \<and> 10 \<notin> set k \<and>
    TrimSpace v = v \<and> 10 \<notin> set v \<and>
    (\<forall>c \<in> set (w1 @ w2 @ w3 @ w4). isSpace c \<and> c \<noteq> 10) \<longrightarrow>
      parseTrace (w1 @ k @ w2 @ 61 # w3 @ v @ w4) = [k \<mapsto> v])"
proof (intro conjI impI)
  show "parseTrace s = map_of (rev (List.map_filter trace_entry (Split s 10)))"
    by (rule parseTrace_closed)
  show "parseTrace (a @ 10 # b) = parseTrace a ++ parseTrace b"
    by (rule parseTrace_append)
next
  assume "61 \<notin> set l"
  then show e: "parseTrace l = Map.empty" by (rule parseTrace_malformed)
  have "parseTrace (a @ 10 # (l @ 10 # b)) = parseTrace a ++ (parseTrace l ++ parseTrace b)"
    by (simp only: parseTrace_append)
  then show "parseTrace (a @ 10 # l @ 10 # b) = parseTrace (a @ 10 # b)"
    by (simp add: e parseTrace_append)
next
  assume "k \<noteq> [] \<and> TrimSpace k = k \<and> 61 \<notin> set k \<and> 10 \<notin> set k \<and>
    TrimSpace v = v \<and> 10 \<notin> set v \<and>
    (\<forall>c \<in> set (w1 @ w2 @ w3 @ w4). isSpace c \<and> c \<noteq> 10)"
  then show "parseTrace (w1 @ k @ w2 @ 61 # w3 @ v @ w4) = [k \<mapsto> v]"
    using parseTrace_padded by blast
qed

theorem parseTrace_lines_trimmed_last_wins_witness:
  "parseTrace (str ''colo=SJC\<newline> h#1 = a # b \<newline>no equals sign\<newline>colo= LAX '')
     = [str ''h#1'' \<mapsto> str ''a # b'', str ''colo'' \<mapsto> str ''LAX''] \<and>
   parseTrace (str '' h#1 =  a # b '') = [str ''h#1'' \<mapsto> str ''a # b''] \<and>
   parseTrace (str ''no equals sign'') = Map.empty"
proof -
  have k: "str ''h#1'' \<noteq> [] \<and> TrimSpace (str ''h#1'') = str ''h#1'' \<and>
    61 \<notin> set (str ''h#1'') \<and> 10 \<notin> set (str ''h#1'') \<and>
    TrimSpace (str ''a # b'') = str ''a # b'' \<and> 10 \<notin> set (str ''a # b'') \<and>
    (\<forall>c \<in> set ([32] @ [32] @ [32, 32] @ [32]). isSpace c \<and> c \<noteq> 10)"
    by (simp add: str_def TrimSpace_def isSpace_def)
  have l: "61 \<notin> set (str ''no equals sign'')" by (simp add: str_def)
  from parseTrace_lines_trimmed_last_wins
    [of "str ''colo=SJC\<newline> h#1 = a # b \<newline>no equals sign\<newline>colo= LAX ''"
        "[]" "[]" "str ''no equals sign''" "str ''h#1''" "str ''a # b''"
        "[32]" "[32]" "[32, 32]" "[32]"] k l
  have "parseTrace (str ''colo=SJC\<newline> h#1 = a # b \<newline>no equals sign\<newline>colo= LAX '')
      = map_of (rev (List.map_filter trace_entry
          (Split (str ''colo=SJC\<newline> h#1 = a # b \<newline>no equals sign\<newline>colo= LAX '') 10)))"
    and "parseTrace ([32] @ str ''h#1'' @ [32] @ 61 # [32, 32] @ str ''a # b'' @ [32])
      = [str ''h#1'' \<mapsto> str ''a # b'']"
    and "parseTrace (str ''no equals sign'') = Map.empty"
    by blast+
  then show ?thesis
    by (simp add: str_def Split_def List.map_filter_def trace_entry_def TrimSpace_def isSpace_def)
qed

section \<open>Properties of ReadCIDRs\<close>

lemma TrimSpace_clean:
  "TrimSpace s = [] \<or> (\<not> isSpace (hd (TrimSpace s)) \<and> \<not> isSpace (last (TrimSpace s)))"
proof (cases "TrimSpace s = []")
  case True
  then show ?thesis by simp
next
  case False
  define d where "d = dropWhile isSpace s"
  define u where "u = dropWhile isSpace (rev d)"
  have t: "TrimSpace s = rev u" by (simp add: TrimSpace_def u_def d_def)
  with False have u: "u \<noteq> []" by simp
  then have hu: "\<not> isSpace (hd u)" unfolding u_def by (metis hd_dropWhile)
  have "rev d = takeWhile isSpace (rev d) @ u" by (simp add: u_def)
  then have "last (rev d) = last u" using u by (metis last_appendR)
  moreover have "d \<noteq> []" using u by (auto simp: u_def)
  ultimately have "last u = hd d" by (simp add: last_rev)
  moreover have "\<not> isSpace (hd d)" using \<open>d \<noteq> []\<close> unfolding d_def by (metis hd_dropWhile)
  ultimately show ?thesis using hu u by (simp add: t hd_rev last_rev)
qed

lemma TrimSpace_idem: "TrimSpace (TrimSpace s) = TrimSpace s"
proof (cases "TrimSpace s = []")
  case True
  show ?thesis unfolding True by (simp add: TrimSpace_def)
next
  case False
  with TrimSpace_clean [of s] show ?thesis by (simp add: TrimSpace_id)
qed

lemma TrimSpace_decomp:
  "\<exists>w1 w2. s = w1 @ TrimSpace s @ w2 \<and> (\<forall>c \<in> set w1. isSpace c) \<and> (\<forall>c \<in> set w2. isSpace c)"
proof -
  define d where "d = dropWhile isSpace s"
  define w1 where "w1 = takeWhile isSpace s"
  define w2 where "w2 = rev (takeWhile isSpace (rev d))"
  have "d = rev (takeWhile isSpace (rev d) @ dropWhile isSpace (rev d))"
    by (simp only: takeWhile_dropWhile_id rev_rev_ident)
  also have "\<dots> = rev (dropWhile isSpace (rev d)) @ rev (takeWhile isSpace (rev d))"
    by (rule rev_append)
  finally have "d = TrimSpace s @ w2" by (simp only: TrimSpace_def d_def w2_def)
  moreover have "s = w1 @ d" by (simp add: w1_def d_def)
  moreover have "\<forall>c \<in> set w1. isSpace c" unfolding w1_def by (meson set_takeWhileD)
  moreover have "\<forall>c \<in> set w2. isSpace c" unfolding w2_def by (auto dest: set_takeWhileD)
  ultimately show ?thesis by blast
qed

lemma TrimSpace_spaces: "\<forall>c \<in> set w. isSpace c \<Longrightarrow> TrimSpace w = []"
  using TrimSpace_pad [of w "[]" "[]"] by (simp add: TrimSpace_def)

lemma TrimSpace_lead: "\<forall>c \<in> set w. isSpace c \<Longrightarrow> TrimSpace (w @ x) = TrimSpace x"
  using dropWhile_append2 [of w isSpace x] by (simp add: TrimSpace_def)

lemma TrimSpace_nonempty: "x \<noteq> [] \<Longrightarrow> \<not> isSpace (hd x) \<Longrightarrow> TrimSpace x \<noteq> []"
proof -
  assume a: "x \<noteq> []" "\<not> isSpace (hd x)"
  then have "dropWhile isSpace x = x" by (cases x) auto
  moreover have "dropWhile isSpace (rev x) \<noteq> []"
  proof
    assume "dropWhile isSpace (rev x) = []"
    then have "\<forall>c \<in> set (rev x). isSpace c" by (simp only: dropWhile_eq_Nil_conv)
    with a show False by (cases x) auto
  qed
  ultimately show ?thesis by (simp add: TrimSpace_def)
qed

lemma readLoop_step:
  "readLoop parse out (t # ts) =
     (if cidr_text t = [] then readLoop parse out ts
      else case parse (cidr_text t) of
             Inl e \<Rightarrow> Inl (ErrParseCidr (cidr_text t) e)
           | Inr p \<Rightarrow> readLoop parse (out @ [Masked p]) ts)"
proof -
  define line where "line = TrimSpace t"
  obtain w1 w2 where t: "t = w1 @ line @ w2"
    and w1: "\<forall>c \<in> set w1. isSpace c" and w2: "\<forall>c \<in> set w2. isSpace c"
    using TrimSpace_decomp [of t] unfolding line_def by blast
  have n35: "\<not> isSpace 35" by (simp add: isSpace_def)
  have w1': "\<forall>c \<in> set w1. c \<noteq> 35" and w2': "\<forall>c \<in> set w2. c \<noteq> 35"
    using w1 w2 n35 by auto
  consider (empty) "line = []" | (comment) "line \<noteq> []" "hd line = 35"
    | (inline) "line \<noteq> []" "hd line \<noteq> 35" "35 \<in> set line"
    | (plain) "line \<noteq> []" "hd line \<noteq> 35" "35 \<notin> set line"
    by blast
  then have "(line = [] \<or> take 1 line = [35] \<longrightarrow> cidr_text t = []) \<and>
    (\<not> (line = [] \<or> take 1 line = [35]) \<longrightarrow> cidr_text t \<noteq> [] \<and>
       cidr_text t = (if 35 \<in> set line
                      then TrimSpace (takeWhile (\<lambda>c. c \<noteq> 35) line) else line))"
  proof cases
    case empty
    then have tw: "takeWhile (\<lambda>c. c \<noteq> 35) t = t" using t w1' w2' by (auto simp: takeWhile_eq_all_conv)
    have "cidr_text t = line" unfolding cidr_text_def tw line_def ..
    with empty show ?thesis by simp
  next
    case comment
    then obtain r where r: "line = 35 # r" by (cases line) auto
    have "takeWhile (\<lambda>c. c \<noteq> 35) t = w1"
      using takeWhile_append2 [of w1 "\<lambda>c. c \<noteq> 35" "line @ w2"] w1' by (simp add: t r)
    then have "cidr_text t = []" using w1 by (simp add: cidr_text_def TrimSpace_spaces)
    with r show ?thesis by simp
  next
    case inline
    have nt: "take 1 line \<noteq> [35]" using inline(1,2) by (cases line) auto
    have "takeWhile (\<lambda>c. c \<noteq> 35) (line @ w2) = takeWhile (\<lambda>c. c \<noteq> 35) line"
      using inline(3) by (simp add: takeWhile_append1 split_list_first_prop_iff)
    then have "takeWhile (\<lambda>c. c \<noteq> 35) t = w1 @ takeWhile (\<lambda>c. c \<noteq> 35) line"
      using takeWhile_append2 [of w1 "\<lambda>c. c \<noteq> 35" "line @ w2"] w1' by (simp add: t)
    then have c: "cidr_text t = TrimSpace (takeWhile (\<lambda>c. c \<noteq> 35) line)"
      using w1 by (simp add: cidr_text_def TrimSpace_lead)
    obtain x r where xr: "line = x # r" "x \<noteq> 35" using inline(1,2) by (cases line) auto
    have "\<not> isSpace (hd line)" using TrimSpace_clean [of t] inline(1) by (simp add: line_def)
    then have "TrimSpace (takeWhile (\<lambda>c. c \<noteq> 35) line) \<noteq> []"
      using xr by (intro TrimSpace_nonempty) auto
    with c nt inline show ?thesis by simp
  next
    case plain
    have nt: "take 1 line \<noteq> [35]" using plain(1,2) by (cases line) auto
    have tw: "takeWhile (\<lambda>c. c \<noteq> 35) t = t"
      using t w1' w2' plain(3) by (auto simp: takeWhile_eq_all_conv)
    have "cidr_text t = line" unfolding cidr_text_def tw line_def ..
    with nt plain show ?thesis by simp
  qed
  then have skip: "line = [] \<or> take 1 line = [35] \<Longrightarrow> cidr_text t = []"
    and keep: "\<not> (line = [] \<or> take 1 line = [35]) \<Longrightarrow> cidr_text t \<noteq> []"
    and same: "\<not> (line = [] \<or> take 1 line = [35]) \<Longrightarrow>
       (if 35 \<in> set line then TrimSpace (takeWhile (\<lambda>c. c \<noteq> 35) line) else line)
         = cidr_text t"
    by (auto split: if_splits)
  have body: "readLoop parse out (t # ts) =
     (if line = [] \<or> take 1 line = [35] then readLoop parse out ts
      else case parse (if 35 \<in> set line
                       then TrimSpace (takeWhile (\<lambda>c. c \<noteq> 35) line) else line) of
             Inl e \<Rightarrow> Inl (ErrParseCidr (if 35 \<in> set line
                       then TrimSpace (takeWhile (\<lambda>c. c \<noteq> 35) line) else line) e)
           | Inr p \<Rightarrow> readLoop parse (out @ [Masked p]) ts)"
    by (simp only: readLoop.simps Let_def line_def)
  show ?thesis
  proof (cases "line = [] \<or> take 1 line = [35]")
    case True
    from skip [OF True] True show ?thesis by (simp only: body if_True refl)
  next
    case False
    from keep [OF False] same [OF False] False show ?thesis by (simp only: body if_False refl)
  qed
qed

lemma readLoop_spec:
  "readLoop parse out ts =
     (case cidrs_spec parse ts of Inl f \<Rightarrow> Inl f | Inr ps \<Rightarrow> Inr (out @ ps))"
proof (induction ts arbitrary: out)
  case Nil
  then show ?case by (simp add: cidrs_spec_def)
next
  case (Cons t ts)
  show ?case
  proof (cases "cidr_text t = []")
    case True
    then have "cidrs_spec parse (t # ts) = cidrs_spec parse ts" by (simp add: cidrs_spec_def)
    with True show ?thesis by (simp add: readLoop_step Cons.IH del: readLoop.simps)
  next
    case False
    show ?thesis
    proof (cases "parse (cidr_text t)")
      case (Inl e)
      with False have "cidrs_spec parse (t # ts) = Inl (ErrParseCidr (cidr_text t) e)"
        by (simp add: cidrs_spec_def)
      with False Inl show ?thesis by (simp add: readLoop_step del: readLoop.simps)
    next
      case (Inr p)
      with False have "cidrs_spec parse (t # ts) =
          (case cidrs_spec parse ts of Inl f \<Rightarrow> Inl f | Inr ps \<Rightarrow> Inr (Masked p # ps))"
        by (simp add: cidrs_spec_def Let_def split: option.split)
      with False Inr show ?thesis
        by (simp add: readLoop_step Cons.IH del: readLoop.simps split: sum.split)
    qed
  qed
qed


lemma cidr_text_comment:
  "35 \<notin> set c \<Longrightarrow> cidr_text (c @ 35 # x) = TrimSpace c \<and> cidr_text c = TrimSpace c"
proof -
  assume a: "35 \<notin> set c"
  then have all: "\<forall>y \<in> set c. y \<noteq> 35" by auto
  then have 1: "takeWhile (\<lambda>c. c \<noteq> 35) c = c" by (simp only: takeWhile_eq_all_conv)
  have 2: "takeWhile (\<lambda>c. c \<noteq> 35) (c @ 35 # x) = c"
    using takeWhile_append2 [of c "\<lambda>c. c \<noteq> 35" "35 # x"] all by simp
  show ?thesis unfolding cidr_text_def 1 2 by simp
qed

lemma ReadCIDRs_spec:
  "ReadCIDRs parse rd =
     (case cidrs_spec parse (fst (scan rd)) of
        Inl f \<Rightarrow> Inl f
      | Inr ps \<Rightarrow> (case snd (scan rd) of Some f \<Rightarrow> Inl f | None \<Rightarrow> Inr ps))"
  by (cases "scan rd") (simp add: ReadCIDRs_def readLoop_spec split: sum.split)

lemma scan_S6:
  "scan \<lparr>rtext = str ''# header\<newline>1.1.0.0/16\<newline>\<newline>2.2.2.0/24 # comment\<newline>'', rerr = None\<rparr>
   = ([str ''# header'', str ''1.1.0.0/16'', [], str ''2.2.2.0/24 # comment''], None)"
  by (simp add: scan_def str_def Split_def tooLong_def runeLen_def dropCR_def)

text \<open>
  Claim C8. \<open>ReadCIDRs\<close> reads one CIDR per line of its input: what it returns is decided by
  the texts before the first \<open>#\<close> of each line, trimmed, the empty ones left out (blank lines,
  comment lines); the first of these texts that \<open>netip.ParsePrefix\<close> rejects is returned as
  the error, and without such a text (and without an error of the scanner) the result is the
  list of the masked prefixes in the order of the lines. The file
  \<open>"# header\n1.1.0.0/16\n\n2.2.2.0/24 # comment\n"\<close> gives exactly 1.1.0.0/16 and 2.2.2.0/24,
  for every parser that reads these two texts as these prefixes.
\<close>

theorem ReadCIDRs_lines_comments_errors:
  "ReadCIDRs parse rd =
     (case cidrs_spec parse (fst (scan rd)) of
        Inl f \<Rightarrow> Inl f
      | Inr ps \<Rightarrow> (case snd (scan rd) of Some f \<Rightarrow> Inl f | None \<Rightarrow> Inr ps)) \<and>
   (35 \<notin> set c \<longrightarrow> cidr_text (c @ 35 # x) = TrimSpace c \<and> cidr_text c = TrimSpace c) \<and>
   (parse (str ''1.1.0.0/16'') = Inr \<lparr>paddr = Addr4 0x01010000, pbits = 16\<rparr> \<and>
    parse (str ''2.2.2.0/24'') = Inr \<lparr>paddr = Addr4 0x02020200, pbits = 24\<rparr> \<longrightarrow>
    ReadCIDRs parse
      \<lparr>rtext = str ''# header\<newline>1.1.0.0/16\<newline>\<newline>2.2.2.0/24 # comment\<newline>'', rerr = None\<rparr>
      = Inr [\<lparr>paddr = Addr4 0x01010000, pbits = 16\<rparr>, \<lparr>paddr = Addr4 0x02020200, pbits = 24\<rparr>])"
proof (intro conjI impI)
  show "ReadCIDRs parse rd =
     (case cidrs_spec parse (fst (scan rd)) of
        Inl f \<Rightarrow> Inl f
      | Inr ps \<Rightarrow> (case snd (scan rd) of Some f \<Rightarrow> Inl f | None \<Rightarrow> Inr ps))"
    by (rule ReadCIDRs_spec)
next
  assume "35 \<notin> set c"
  then show "cidr_text (c @ 35 # x) = TrimSpace c" "cidr_text c = TrimSpace c"
    using cidr_text_comment by blast+
next
  assume p: "parse (str ''1.1.0.0/16'') = Inr \<lparr>paddr = Addr4 0x01010000, pbits = 16\<rparr> \<and>
    parse (str ''2.2.2.0/24'') = Inr \<lparr>paddr = Addr4 0x02020200, pbits = 24\<rparr>"
  have c: "cidr_text (str ''# header'') = []"
    "cidr_text (str ''1.1.0.0/16'') = str ''1.1.0.0/16''"
    "cidr_text [] = []"
    "cidr_text (str ''2.2.2.0/24 # comment'') = str ''2.2.2.0/24''"
    by (simp_all add: cidr_text_def str_def TrimSpace_def isSpace_def)
  have ne: "str ''1.1.0.0/16'' \<noteq> []" "str ''2.2.2.0/24'' \<noteq> []"
    by (simp_all add: str_def)
  have m: "Masked \<lparr>paddr = Addr4 0x01010000, pbits = 16\<rparr> = \<lparr>paddr = Addr4 0x01010000, pbits = 16\<rparr>"
    "Masked \<lparr>paddr = Addr4 0x02020200, pbits = 24\<rparr> = \<lparr>paddr = Addr4 0x02020200, pbits = 24\<rparr>"
    by (simp_all add: Masked_def PrefixFrom_def withoutZone_def BitLen_def mask_eq_exp_minus_1)
  show "ReadCIDRs parse
      \<lparr>rtext = str ''# header\<newline>1.1.0.0/16\<newline>\<newline>2.2.2.0/24 # comment\<newline>'', rerr = None\<rparr>
      = Inr [\<lparr>paddr = Addr4 0x01010000, pbits = 16\<rparr>, \<lparr>paddr = Addr4 0x02020200, pbits = 24\<rparr>]"
    unfolding ReadCIDRs_spec scan_S6
    by (simp add: cidrs_spec_def c ne m p)
qed


theorem ReadCIDRs_lines_comments_errors_witness:
  "ReadCIDRs
     (\<lambda>s. if s = str ''1.1.0.0/16'' then Inr \<lparr>paddr = Addr4 0x01010000, pbits = 16\<rparr>
          else if s = str ''2.2.2.0/24'' then Inr \<lparr>paddr = Addr4 0x02020200, pbits = 24\<rparr>
          else Inl (ErrNetip s))
     \<lparr>rtext = str ''# header\<newline>1.1.0.0/16\<newline>\<newline>2.2.2.0/24 # comment\<newline>'', rerr = None\<rparr>
   = Inr [\<lparr>paddr = Addr4 0x01010000, pbits = 16\<rparr>, \<lparr>paddr = Addr4 0x02020200, pbits = 24\<rparr>] \<and>
   ReadCIDRs
     (\<lambda>s. if s = str ''1.1.0.0/16'' then Inr \<lparr>paddr = Addr4 0x01010000, pbits = 16\<rparr>
          else if s = str ''2.2.2.0/24'' then Inr \<lparr>paddr = Addr4 0x02020200, pbits = 24\<rparr>
          else Inl (ErrNetip s))
     \<lparr>rtext = str ''1.1.0.0/16 #ok\<newline> bogus \<newline>2.2.2.0/24'', rerr = None\<rparr>
   = Inl (ErrParseCidr (str ''bogus'') (ErrNetip (str ''bogus'')))"
proof -
  let ?P = "\<lambda>s. if s = str ''1.1.0.0/16'' then Inr \<lparr>paddr = Addr4 0x01010000, pbits = 16\<rparr>
          else if s = str ''2.2.2.0/24'' then Inr \<lparr>paddr = Addr4 0x02020200, pbits = 24\<rparr>
          else Inl (ErrNetip s)"
  let ?rd = "\<lparr>rtext = str ''1.1.0.0/16 #ok\<newline> bogus \<newline>2.2.2.0/24'', rerr = None\<rparr>"
  have h: "?P (str ''1.1.0.0/16'') = Inr \<lparr>paddr = Addr4 0x01010000, pbits = 16\<rparr> \<and>
    ?P (str ''2.2.2.0/24'') = Inr \<lparr>paddr = Addr4 0x02020200, pbits = 24\<rparr>"
    by (simp add: str_def)
  have sc: "scan ?rd = ([str ''1.1.0.0/16 #ok'', str '' bogus '', str ''2.2.2.0/24''], None)"
    by (simp add: scan_def str_def Split_def tooLong_def runeLen_def dropCR_def)
  have c: "cidr_text (str ''1.1.0.0/16 #ok'') = str ''1.1.0.0/16''"
    "cidr_text (str '' bogus '') = str ''bogus''"
    "cidr_text (str ''2.2.2.0/24'') = str ''2.2.2.0/24''"
    by (simp_all add: cidr_text_def str_def TrimSpace_def isSpace_def)
  have sp: "cidrs_spec ?P (fst (scan ?rd)) = Inl (ErrParseCidr (str ''bogus'') (ErrNetip (str ''bogus'')))"
    unfolding sc by (simp add: cidrs_spec_def c) (simp add: str_def)
  from ReadCIDRs_lines_comments_errors [of ?P ?rd "[]" "[]"] h sp
  show ?thesis by simp
qed

section \<open>Properties of SplitPrefix\<close>

lemma int64_id: "- (2 ^ 63) \<le> x \<Longrightarrow> x < 2 ^ 63 \<Longrightarrow> int64 x = x"
  by (simp add: int64_def signed_take_bit_int_eq_self)

lemma bit_word16:
  assumes "length bs = 16"
  shows "bit (word16 bs) m \<longleftrightarrow> m < 128 \<and> bit (bs ! (15 - m div 8)) (m mod 8)"
proof (cases "m < 128")
  case False
  then show ?thesis by (auto dest: bit_imp_le_length)
next
  case True
  then have d: "m div 8 < 16" by simp
  have "bit (word16 bs) m \<longleftrightarrow> bit (horner_sum uint ((2::int) ^ LENGTH(8)) (rev bs)) m"
    using True by (simp add: word16_def bit_word_of_int_iff)
  also have "\<dots> \<longleftrightarrow> bit (rev bs ! (m div 8)) (m mod 8)"
    using d assms by (simp only: bit_horner_sum_uint_exp_iff) simp
  also have "rev bs ! (m div 8) = bs ! (15 - m div 8)"
    using d assms by (simp add: rev_nth)
  finally show ?thesis using True by simp
qed

lemma length_bytes16: "length (bytes16 w) = 16"
  by (simp add: bytes16_def)

lemma nth_bytes16: "i < 16 \<Longrightarrow> bytes16 w ! i = ucast (drop_bit (8 * (15 - i)) w)"
  unfolding bytes16_def by (subst nth_map) simp_all

lemma word16_bytes16: "word16 (bytes16 w) = w"
proof (rule bit_word_eqI)
  fix n assume "n < LENGTH(128)"
  then have n: "n < 128" by simp
  then have i: "15 - n div 8 < 16" and e: "8 * (15 - (15 - n div 8)) + n mod 8 = n"
    by simp_all
  have "n mod 8 < 8" by simp
  then show "bit (word16 (bytes16 w)) n = bit w n"
    using n e by (simp add: bit_word16 length_bytes16 nth_bytes16 [OF i] bit_ucast_iff bit_drop_bit_eq add.commute del: mod_less_divisor)
qed

lemma rev_byte_index:
  assumes "(k::nat) < 128"
  shows "(127 - k) div 8 = 15 - k div 8" and "7 - (127 - k) mod 8 = k mod 8"
proof -
  define q r where "q = k div 8" and "r = k mod 8"
  have k: "k = q * 8 + r" and r: "r < 8" by (simp_all add: q_def r_def)
  with assms have q: "q \<le> 15" by simp
  define y where "y = 7 - r"
  have y: "y < 8" "7 - y = r" using r by (simp_all add: y_def)
  have e: "127 - k = (15 - q) * 8 + y" using k r q by (simp add: y_def)
  have "(127 - k) div 8 = 15 - q" unfolding e using y(1) by simp
  then show "(127 - k) div 8 = 15 - k div 8" by (simp add: q_def)
  have "(127 - k) mod 8 = y" unfolding e using y(1) by simp
  then show "7 - (127 - k) mod 8 = k mod 8" using y(2) by (simp add: r_def)
qed

lemma same_bit_position:
  assumes "(m::nat) < 128" "k < 128"
  shows "15 - m div 8 = 15 - k div 8 \<and> m mod 8 = k mod 8 \<longleftrightarrow> m = k"
proof -
  have "m div 8 < 16" "k div 8 < 16" using assms by simp_all
  then have "15 - m div 8 = 15 - k div 8 \<longleftrightarrow> m div 8 = k div 8" by arith
  moreover have "m div 8 = k div 8 \<and> m mod 8 = k mod 8 \<longleftrightarrow> m = k"
    by (metis div_mult_mod_eq)
  ultimately show ?thesis by blast
qed

lemma length_setBitFromLSB: "length (setBitFromLSB dst pos) = length dst"
  by (simp add: setBitFromLSB_def Let_def)

lemma word16_setBitFromLSB:
  assumes "length dst = 16" "0 \<le> pos" "pos < 128"
  shows "word16 (setBitFromLSB dst pos) = set_bit (nat pos) (word16 dst)"
proof (rule bit_word_eqI)
  fix n assume "n < LENGTH(128)"
  then have n: "n < 128" by simp
  define k where "k = nat pos"
  have k: "k < 128" "pos = int k" using assms by (simp_all add: k_def)
  have "nat (127 - pos) = 127 - k" using k by simp
  moreover have "(127 - k) div 8 = 15 - k div 8" "7 - (127 - k) mod 8 = k mod 8"
    using k(1) by (rule rev_byte_index)+
  ultimately have idx: "nat (127 - pos) div 8 = 15 - k div 8" "7 - nat (127 - pos) mod 8 = k mod 8"
    by simp_all
  have same: "15 - n div 8 = 15 - k div 8 \<and> n mod 8 = k mod 8 \<longleftrightarrow> n = k"
    using n k(1) by (rule same_bit_position)
  have upd: "setBitFromLSB dst pos = dst[15 - k div 8 := dst ! (15 - k div 8) OR push_bit (k mod 8) 1]"
    using assms(2,3) idx by (simp add: setBitFromLSB_def Let_def)
  have lt: "15 - n div 8 < length dst" using assms(1) by simp
  have "bit (word16 (setBitFromLSB dst pos)) n \<longleftrightarrow>
      bit ((dst[15 - k div 8 := dst ! (15 - k div 8) OR push_bit (k mod 8) 1]) ! (15 - n div 8)) (n mod 8)"
    unfolding upd using n assms(1) by (subst bit_word16) simp_all
  also have "\<dots> \<longleftrightarrow> bit (dst ! (15 - n div 8)) (n mod 8) \<or> n = k"
  proof (cases "15 - n div 8 = 15 - k div 8")
    case True
    have "bit (push_bit (k mod 8) (1 :: 8 word)) (n mod 8) \<longleftrightarrow> n mod 8 = k mod 8"
      by (auto simp: bit_exp_iff)
    with True lt same show ?thesis by (simp add: bit_or_iff)
  next
    case False
    with same have "n \<noteq> k" by blast
    with False show ?thesis by simp
  qed
  also have "\<dots> \<longleftrightarrow> bit (set_bit k (word16 dst)) n"
    using n assms(1) by (auto simp: bit_set_bit_iff bit_word16)
  finally show "bit (word16 (setBitFromLSB dst pos)) n = bit (set_bit (nat pos) (word16 dst)) n"
    by (simp add: k_def)
qed


lemma drop_bit_and_1: "drop_bit b (w :: 64 word) AND 1 = 1 \<longleftrightarrow> bit w b"
  by (simp add: and_one_eq bit_iff_odd_drop_bit odd_iff_mod_2_eq_one)

lemma set_bit_pushed:
  fixes A :: "128 word" and idx :: "64 word"
  assumes "s + k < 128"
  shows "(if bit idx k then set_bit (s + k) (A OR push_bit s (ucast (take_bit k idx)))
          else A OR push_bit s (ucast (take_bit k idx)))
         = A OR push_bit s (ucast (take_bit (Suc k) idx))"
proof (rule bit_word_eqI)
  fix j assume "j < LENGTH(128)"
  then have j: "j < 128" by simp
  have *: "s \<le> j \<and> j - s < Suc k \<longleftrightarrow> (s \<le> j \<and> j - s < k) \<or> j = s + k" by auto
  show "bit (if bit idx k then set_bit (s + k) (A OR push_bit s (ucast (take_bit k idx)))
          else A OR push_bit s (ucast (take_bit k idx))) j
         = bit (A OR push_bit s (ucast (take_bit (Suc k) idx))) j"
    using j * by (auto simp: bit_set_bit_iff bit_or_iff bit_push_bit_iff bit_ucast_iff bit_take_bit_iff)
qed

lemma fold_orShifted:
  fixes dst :: "8 word list" and index :: "64 word"
  assumes "length dst = 16" "0 \<le> shift" "shift + int k \<le> 128"
  shows "length (fold (\<lambda>b d. if drop_bit b index AND 1 = 1
                  then setBitFromLSB d (int64 (shift + int b)) else d) [0..<k] dst) = 16 \<and>
    word16 (fold (\<lambda>b d. if drop_bit b index AND 1 = 1
                  then setBitFromLSB d (int64 (shift + int b)) else d) [0..<k] dst)
      = word16 dst OR push_bit (nat shift) (ucast (take_bit k index))"
  using assms(3)
proof (induction k)
  case 0
  then show ?case using assms(1) by simp
next
  case (Suc k)
  let ?F = "\<lambda>b d. if drop_bit b index AND 1 = 1
                  then setBitFromLSB d (int64 (shift + int b)) else d"
  let ?d = "fold ?F [0..<k] dst"
  from Suc have IH: "length ?d = 16"
    "word16 ?d = word16 dst OR push_bit (nat shift) (ucast (take_bit k index))"
    by simp_all
  have pos: "0 \<le> shift + int k" "shift + int k < 128" using assms(2) Suc.prems by simp_all
  then have i64: "int64 (shift + int k) = shift + int k" by (intro int64_id) simp_all
  have nn: "nat (shift + int k) = nat shift + k" using assms(2) by simp
  have step: "fold ?F [0..<Suc k] dst = ?F k ?d" by simp
  have len: "length (?F k ?d) = 16" using IH(1) by (simp add: length_setBitFromLSB)
  have "word16 (?F k ?d) =
      (if bit index k then set_bit (nat shift + k) (word16 ?d) else word16 ?d)"
    using word16_setBitFromLSB [OF IH(1) pos] by (simp add: drop_bit_and_1 i64 nn)
  also have "\<dots> = word16 dst OR push_bit (nat shift) (ucast (take_bit (Suc k) index))"
    unfolding IH(2) using pos(2) assms(2) by (intro set_bit_pushed) simp
  finally show ?case using len unfolding step by simp
qed

lemma word16_orShiftedIndex:
  assumes "length dst = 16" "0 \<le> shift" "0 \<le> bits" "shift + bits \<le> 128"
  shows "word16 (orShiftedIndex dst index shift bits)
      = word16 dst OR push_bit (nat shift) (ucast (take_bit (nat bits) index))"
proof -
  have "shift + int (nat bits) \<le> 128" using assms(3,4) by simp
  from fold_orShifted [OF assms(1,2) this] show ?thesis by (simp add: orShiftedIndex_def)
qed

lemma bit_nat_less_exp: "(i::nat) < 2 ^ s \<Longrightarrow> bit i m \<Longrightarrow> m < s"
proof -
  assume a: "i < 2 ^ s" "bit i m"
  from a(1) have "take_bit s i = i" by (rule take_bit_nat_eq_self)
  with a(2) have "bit (take_bit s i) m" by (simp only:)
  then show ?thesis by (simp only: bit_take_bit_iff)
qed

lemma drop_bit_xor_eq_0:
  fixes a b :: "'a::len word"
  shows "drop_bit k (a XOR b) = 0 \<longleftrightarrow> (\<forall>m. k \<le> m \<longrightarrow> bit a m = bit b m)"
proof
  assume z: "drop_bit k (a XOR b) = 0"
  show "\<forall>m. k \<le> m \<longrightarrow> bit a m = bit b m"
  proof (intro allI impI)
    fix m assume "k \<le> m"
    then obtain j where m: "m = k + j" using le_Suc_ex by blast
    have "\<not> bit (drop_bit k (a XOR b)) j" unfolding z by simp
    then show "bit a m = bit b m" by (simp add: bit_drop_bit_eq bit_xor_iff m)
  qed
next
  assume e: "\<forall>m. k \<le> m \<longrightarrow> bit a m = bit b m"
  show "drop_bit k (a XOR b) = 0"
    by (rule bit_word_eqI) (simp add: bit_drop_bit_eq bit_xor_iff e)
qed

lemma and_not_mask_eq_0:
  fixes x :: "'a::len word"
  shows "x AND NOT (mask k) = 0 \<longleftrightarrow> drop_bit k x = 0"
proof
  assume z: "x AND NOT (mask k) = 0"
  show "drop_bit k x = 0"
  proof (rule bit_word_eqI)
    fix j assume j: "j < LENGTH('a)"
    have "\<not> bit (x AND NOT (mask k)) (k + j)" unfolding z by simp
    then show "bit (drop_bit k x) j = bit (0 :: 'a word) j"
      by (auto simp: bit_drop_bit_eq bit_and_iff bit_not_iff bit_mask_iff dest: bit_imp_le_length)
  qed
next
  assume z: "drop_bit k x = 0"
  show "x AND NOT (mask k) = 0"
  proof (rule bit_word_eqI)
    fix j assume j: "j < LENGTH('a)"
    show "bit (x AND NOT (mask k)) j = bit (0 :: 'a word) j"
    proof (cases "k \<le> j")
      case True
      then obtain i where i: "j = k + i" using le_Suc_ex by blast
      have "\<not> bit (drop_bit k x) i" unfolding z by simp
      then show ?thesis by (simp add: bit_drop_bit_eq bit_and_iff i)
    next
      case False
      then show ?thesis by (simp add: bit_and_iff bit_not_iff bit_mask_iff)
    qed
  qed
qed

lemma and_not_mask_id:
  fixes x :: "'a::len word"
  shows "x AND NOT (mask k) = x \<longleftrightarrow> (\<forall>m < k. \<not> bit x m)"
proof
  assume e: "x AND NOT (mask k) = x"
  show "\<forall>m < k. \<not> bit x m"
  proof (intro allI impI)
    fix m assume "m < k"
    have "bit x m \<longleftrightarrow> bit (x AND NOT (mask k)) m" by (simp only: e)
    with \<open>m < k\<close> show "\<not> bit x m" by (simp add: bit_and_iff bit_not_iff bit_mask_iff)
  qed
next
  assume "\<forall>m < k. \<not> bit x m"
  then show "x AND NOT (mask k) = x"
    by (intro bit_word_eqI) (auto simp: bit_and_iff bit_not_iff bit_mask_iff)
qed

lemma child_bits:
  fixes w :: "'a::len word"
  assumes low: "\<forall>m < sh + s. \<not> bit w m" and i: "i < 2 ^ s" and len: "sh + s \<le> LENGTH('a)"
  shows "bit (w OR push_bit sh (of_nat i)) m \<longleftrightarrow>
     (if m < sh then False else if m < sh + s then bit i (m - sh) else bit w m)"
proof (cases "m < sh")
  case True
  with low show ?thesis by (simp add: bit_or_iff bit_push_bit_iff)
next
  case False
  show ?thesis
  proof (cases "m < sh + s")
    case True
    with len have "m - sh < LENGTH('a)" "m < LENGTH('a)" by simp_all
    with True low False show ?thesis
      by (simp add: bit_or_iff bit_push_bit_iff bit_of_nat_iff)
  next
    case False
    with bit_nat_less_exp [OF i, of "m - sh"] have "\<not> bit i (m - sh)" by auto
    with False \<open>\<not> m < sh\<close> show ?thesis
      by (simp add: bit_or_iff bit_push_bit_iff bit_of_nat_iff)
  qed
qed

lemma child_contains:
  fixes w a :: "'a::len word"
  assumes low: "\<forall>m < sh + s. \<not> bit w m" and i: "i < 2 ^ s" and len: "sh + s \<le> LENGTH('a)"
  shows "drop_bit sh (a XOR (w OR push_bit sh (of_nat i))) = 0 \<longleftrightarrow>
     drop_bit (sh + s) (a XOR w) = 0 \<and> unat (take_bit s (drop_bit sh a)) = i"
proof -
  note cb = child_bits [OF low i len]
  have "unat (take_bit s (drop_bit sh a)) = i \<longleftrightarrow> (\<forall>j < s. bit a (sh + j) = bit i j)"
  proof
    assume u: "unat (take_bit s (drop_bit sh a)) = i"
    show "\<forall>j < s. bit a (sh + j) = bit i j"
    proof (intro allI impI)
      fix j assume "j < s"
      have "bit i j \<longleftrightarrow> bit (unat (take_bit s (drop_bit sh a))) j" by (simp only: u)
      with \<open>j < s\<close> show "bit a (sh + j) = bit i j"
        by (simp add: bit_unsigned_iff bit_take_bit_iff bit_drop_bit_eq)
    qed
  next
    assume e: "\<forall>j < s. bit a (sh + j) = bit i j"
    show "unat (take_bit s (drop_bit sh a)) = i"
    proof (rule bit_eqI)
      fix j
      show "bit (unat (take_bit s (drop_bit sh a))) j = bit i j"
        using e bit_nat_less_exp [OF i, of j]
        by (auto simp: bit_unsigned_iff bit_take_bit_iff bit_drop_bit_eq)
    qed
  qed
  moreover have "(\<forall>m \<ge> sh. bit a m = bit (w OR push_bit sh (of_nat i)) m) \<longleftrightarrow>
      (\<forall>m \<ge> sh + s. bit a m = bit w m) \<and> (\<forall>j < s. bit a (sh + j) = bit i j)"
    (is "?L \<longleftrightarrow> ?R1 \<and> ?R2")
  proof
    assume L: ?L
    have ?R1
    proof (intro allI impI)
      fix m assume "sh + s \<le> m"
      with L show "bit a m = bit w m" by (simp add: cb)
    qed
    moreover have ?R2
    proof (intro allI impI)
      fix j assume "j < s"
      with L [rule_format, of "sh + j"] show "bit a (sh + j) = bit i j" by (simp add: cb)
    qed
    ultimately show "?R1 \<and> ?R2" ..
  next
    assume R: "?R1 \<and> ?R2"
    show ?L
    proof (intro allI impI)
      fix m assume m: "sh \<le> m"
      show "bit a m = bit (w OR push_bit sh (of_nat i)) m"
      proof (cases "m < sh + s")
        case True
        with m have j: "m - sh < s" "sh + (m - sh) = m" by simp_all
        from R have "\<forall>j < s. bit a (sh + j) = bit i j" ..
        then have "bit a (sh + (m - sh)) = bit i (m - sh)" using j(1) by blast
        then have "bit a m = bit i (m - sh)" by (simp only: j(2))
        with True m show ?thesis by (simp add: cb)
      next
        case False
        with R m show ?thesis by (simp add: cb)
      qed
    qed
  qed
  ultimately show ?thesis unfolding drop_bit_xor_eq_0 by blast
qed


lemma splitLoop_map:
  assumes "\<And>i. i \<in> set js \<Longrightarrow> childPrefixAddr base bits step (int i) = Inr (f i)"
  shows "splitLoop base bits step nb js = Inr (map (\<lambda>i. Masked (PrefixFrom (f i) nb)) js)"
  using assms by (induction js) simp_all

lemma parts_small:
  assumes "1 \<le> s" "s \<le> 62"
  shows "int64 (push_bit (nat s) 1) = 2 ^ nat s" and "nat (2 ^ nat s :: int) = 2 ^ nat s"
    and "int64 (2 ^ nat s) = 2 ^ nat s"
proof -
  have "nat s < 63" using assms by simp
  then have "(2::int) ^ nat s < 2 ^ 63" by (rule power_strict_increasing) simp
  moreover have "- (2 ^ 63) \<le> (2::int) ^ nat s"
    by (rule order_trans [of _ 0]) simp_all
  ultimately show *: "int64 (2 ^ nat s) = 2 ^ nat s" by (rule int64_id [rotated])
  then show "int64 (push_bit (nat s) 1) = 2 ^ nat s" by (simp add: push_bit_eq_mult)
  show "nat (2 ^ nat s :: int) = 2 ^ nat s" by (simp add: nat_power_eq)
qed

lemma masked4_low:
  assumes "Masked p = p" "paddr p = Addr4 v" "0 \<le> pbits p" "pbits p \<le> 32"
  shows "\<forall>m < nat (32 - pbits p). \<not> bit v m"
proof -
  from assms have "v AND NOT (mask (nat (32 - pbits p))) = v"
    by (auto simp: Masked_def PrefixFrom_def withoutZone_def BitLen_def Let_def
        dest!: arg_cong [where f = paddr])
  then show ?thesis by (simp only: and_not_mask_id)
qed

lemma add_child4:
  fixes v :: "32 word"
  assumes low: "\<forall>m < sh + s. \<not> bit v m" and i: "i < 2 ^ s"
  shows "v + push_bit sh (of_nat i) = v OR push_bit sh (of_nat i)"
proof (rule disjunctive_add)
  fix m
  show "\<not> bit v m \<or> \<not> bit (push_bit sh (of_nat i :: 32 word)) m"
  proof (cases "bit (push_bit sh (of_nat i :: 32 word)) m")
    case False
    then show ?thesis by simp
  next
    case True
    then have "sh \<le> m" "bit i (m - sh)" by (simp_all add: bit_push_bit_iff bit_of_nat_iff)
    with bit_nat_less_exp [OF i] have "m < sh + s" by fastforce
    with low show ?thesis by simp
  qed
qed

lemma childPrefixAddr4:
  assumes "Masked p = p" "paddr p = Addr4 v" "0 \<le> pbits p" "1 \<le> s" "pbits p + s \<le> 32"
    and "i < 2 ^ nat s"
  shows "childPrefixAddr (paddr p) (pbits p) s (int i) = Inr (paddr (child p s i))"
    and "Masked (PrefixFrom (paddr (child p s i)) (pbits p + s)) = child p s i"
proof -
  define sh where "sh = nat (32 - (pbits p + s))"
  have h: "nat (32 - pbits p) = sh + nat s" using assms(3-5) by (simp add: sh_def)
  have low: "\<forall>m < sh + nat s. \<not> bit v m"
    using masked4_low [OF assms(1,2,3)] assms(4,5) h by simp
  have nb: "int64 (pbits p + s) = pbits p + s" using assms(3-5) by (intro int64_id) simp_all
  have shi: "int64 (32 - (pbits p + s)) = 32 - (pbits p + s)"
    using assms(3-5) by (intro int64_id) simp_all
  have c: "paddr (child p s i) = Addr4 (v OR push_bit sh (of_nat i))"
    by (simp add: child_def addrOr_def assms(2) maxBits_def Is4_def sh_def push_bit_of_nat)
  show "childPrefixAddr (paddr p) (pbits p) s (int i) = Inr (paddr (child p s i))"
    unfolding c using assms(5) add_child4 [OF low assms(6)]
    by (simp add: childPrefixAddr_def assms(2) nb shi Let_def sh_def)
  have len: "sh + nat s \<le> LENGTH(32)" using assms(3-5) by (simp add: sh_def)
  have "\<forall>m < sh. \<not> bit (v OR push_bit sh (of_nat i)) m"
    by (simp add: child_bits [OF low assms(6) len])
  then have m: "(v OR push_bit sh (of_nat i)) AND NOT (mask sh) = v OR push_bit sh (of_nat i)"
    by (simp only: and_not_mask_id)
  show "Masked (PrefixFrom (paddr (child p s i)) (pbits p + s)) = child p s i"
    unfolding c using assms(3-5) m
    by (simp add: Masked_def PrefixFrom_def withoutZone_def BitLen_def Let_def child_def
        addrOr_def assms(2) maxBits_def Is4_def sh_def push_bit_of_nat)
qed


lemma masked6_low:
  assumes "Masked p = p" "paddr p = Addr6 w z" "0 \<le> pbits p" "pbits p \<le> 128"
  shows "\<forall>m < nat (128 - pbits p). \<not> bit w m"
proof -
  from assms have "w AND NOT (mask (nat (128 - pbits p))) = w"
    by (auto simp: Masked_def PrefixFrom_def withoutZone_def BitLen_def Let_def
        dest!: arg_cong [where f = paddr])
  then show ?thesis by (simp only: and_not_mask_id)
qed

lemma ucast_index:
  assumes "i < 2 ^ k" "k \<le> 64"
  shows "ucast (take_bit k (of_nat i :: 64 word)) = (of_nat i :: 128 word)"
proof (rule bit_word_eqI)
  fix m assume "m < LENGTH(128)"
  have "bit i m \<Longrightarrow> m < 64" using bit_nat_less_exp [OF assms(1), of m] assms(2) by simp
  moreover have "bit i m \<Longrightarrow> m < k" using bit_nat_less_exp [OF assms(1)] .
  ultimately show "bit (ucast (take_bit k (of_nat i :: 64 word)) :: 128 word) m
      = bit (of_nat i :: 128 word) m"
    using \<open>m < LENGTH(128)\<close> by (auto simp: bit_ucast_iff bit_take_bit_iff bit_of_nat_iff)
qed

lemma childPrefixAddr6:
  assumes "Masked p = p" "paddr p = Addr6 w []" "0 \<le> pbits p" "1 \<le> s" "s \<le> 62"
    and "pbits p + s \<le> 128" and "i < 2 ^ nat s"
  shows "childPrefixAddr (paddr p) (pbits p) s (int i) = Inr (paddr (child p s i))"
    and "Masked (PrefixFrom (paddr (child p s i)) (pbits p + s)) = child p s i"
proof -
  define sh where "sh = nat (128 - (pbits p + s))"
  have h: "nat (128 - pbits p) = sh + nat s" using assms(3,4,6) by (simp add: sh_def)
  have p128: "pbits p \<le> 128" using assms(4,6) by simp
  have low: "\<forall>m < sh + nat s. \<not> bit w m"
    using masked6_low [OF assms(1,2,3) p128] h by simp
  have len: "sh + nat s \<le> LENGTH(128)" using assms(3,4,6) by (simp add: sh_def)
  have nb: "int64 (pbits p + s) = pbits p + s" using assms(3,4,6) by (intro int64_id) simp_all
  have shi: "int64 (128 - (pbits p + s)) = 128 - (pbits p + s)"
    using assms(3,4,6) by (intro int64_id) simp_all
  have c: "paddr (child p s i) = Addr6 (w OR push_bit sh (of_nat i)) []"
    by (simp add: child_def addrOr_def assms(2) maxBits_def Is4_def sh_def push_bit_of_nat)
  have "word16 (orShiftedIndex (bytes16 w) (of_nat i) (128 - (pbits p + s)) s)
      = word16 (bytes16 w) OR push_bit sh (ucast (take_bit (nat s) (of_nat i :: 64 word)))"
    unfolding sh_def using assms(3,4,6)
    by (intro word16_orShiftedIndex) (simp_all add: length_bytes16)
  also have "\<dots> = w OR push_bit sh (of_nat i)"
    using ucast_index [OF assms(7)] assms(5) by (simp add: word16_bytes16)
  finally show "childPrefixAddr (paddr p) (pbits p) s (int i) = Inr (paddr (child p s i))"
    unfolding c by (simp add: childPrefixAddr_def assms(2) nb shi Let_def As16_def AddrFrom16_def)
  have "\<forall>m < sh. \<not> bit (w OR push_bit sh (of_nat i)) m"
    by (simp add: child_bits [OF low assms(7) len])
  then have m: "(w OR push_bit sh (of_nat i)) AND NOT (mask sh) = w OR push_bit sh (of_nat i)"
    by (simp only: and_not_mask_id)
  show "Masked (PrefixFrom (paddr (child p s i)) (pbits p + s)) = child p s i"
    unfolding c using assms(3,4,6) m
    by (simp add: Masked_def PrefixFrom_def withoutZone_def BitLen_def Let_def child_def
        addrOr_def assms(2) maxBits_def Is4_def sh_def push_bit_of_nat)
qed


lemma childIndex_less: "childIndex p s a < 2 ^ nat s"
  by (cases a) (simp_all add: childIndex_def unsigned_take_bit_eq)

lemma Contains_child4:
  assumes "Masked p = p" "paddr p = Addr4 v" "0 \<le> pbits p" "1 \<le> s" "pbits p + s \<le> 32"
    and "i < 2 ^ nat s"
  shows "Contains (child p s i) a \<longleftrightarrow> Contains p a \<and> childIndex p s a = i"
proof (cases a)
  case (Addr4 x)
  define sh where "sh = nat (32 - (pbits p + s))"
  have h: "nat (32 - pbits p) = sh + nat s" using assms(3-5) by (simp add: sh_def)
  have low: "\<forall>m < sh + nat s. \<not> bit v m"
    using masked4_low [OF assms(1,2,3)] assms(4,5) h by simp
  have len: "sh + nat s \<le> LENGTH(32)" using assms(3-5) by (simp add: sh_def)
  have c: "child p s i = \<lparr>paddr = Addr4 (v OR push_bit sh (of_nat i)), pbits = pbits p + s\<rparr>"
    by (simp add: child_def addrOr_def assms(2) maxBits_def Is4_def sh_def push_bit_of_nat)
  have "Contains (child p s i) a \<longleftrightarrow>
      drop_bit sh (x XOR (v OR push_bit sh (of_nat i))) = 0"
    unfolding c using assms(3,4) by (simp add: Contains_def Addr4 sh_def)
  also have "\<dots> \<longleftrightarrow> drop_bit (sh + nat s) (x XOR v) = 0 \<and>
      unat (take_bit (nat s) (drop_bit sh x)) = i"
    by (rule child_contains [OF low assms(6) len])
  also have "\<dots> \<longleftrightarrow> Contains p a \<and> childIndex p s a = i"
    using assms(3) by (simp add: Contains_def Addr4 assms(2) h childIndex_def sh_def)
  finally show ?thesis .
next
  case AddrZero
  then show ?thesis
    by (simp add: Contains_def child_def addrOr_def assms(2))
next
  case (Addr6 x z)
  then show ?thesis
    by (simp add: Contains_def child_def addrOr_def assms(2))
qed

lemma Contains_child6:
  assumes "Masked p = p" "paddr p = Addr6 w []" "0 \<le> pbits p" "1 \<le> s"
    and "pbits p + s \<le> 128" and "i < 2 ^ nat s"
  shows "Contains (child p s i) a \<longleftrightarrow> Contains p a \<and> childIndex p s a = i"
proof (cases a)
  case (Addr6 x z)
  define sh where "sh = nat (128 - (pbits p + s))"
  have h: "nat (128 - pbits p) = sh + nat s" using assms(3-5) by (simp add: sh_def)
  have p128: "pbits p \<le> 128" using assms(4,5) by simp
  have low: "\<forall>m < sh + nat s. \<not> bit w m"
    using masked6_low [OF assms(1,2,3) p128] h by simp
  have len: "sh + nat s \<le> LENGTH(128)" using assms(3-5) by (simp add: sh_def)
  have c: "child p s i = \<lparr>paddr = Addr6 (w OR push_bit sh (of_nat i)) [], pbits = pbits p + s\<rparr>"
    by (simp add: child_def addrOr_def assms(2) maxBits_def Is4_def sh_def push_bit_of_nat)
  have "Contains (child p s i) a \<longleftrightarrow>
      z = [] \<and> drop_bit sh (x XOR (w OR push_bit sh (of_nat i))) = 0"
    unfolding c using assms(3,4) by (simp add: Contains_def Addr6 sh_def and_not_mask_eq_0)
  also have "\<dots> \<longleftrightarrow> z = [] \<and> drop_bit (sh + nat s) (x XOR w) = 0 \<and>
      unat (take_bit (nat s) (drop_bit sh x)) = i"
    by (simp only: child_contains [OF low assms(6) len])
  also have "\<dots> \<longleftrightarrow> Contains p a \<and> childIndex p s a = i"
    using assms(3) by (simp add: Contains_def Addr6 assms(2) h childIndex_def sh_def and_not_mask_eq_0)
  finally show ?thesis .
next
  case AddrZero
  then show ?thesis
    by (simp add: Contains_def child_def addrOr_def assms(2))
next
  case (Addr4 x)
  then show ?thesis
    by (simp add: Contains_def child_def addrOr_def assms(2))
qed

lemma valid_cases:
  assumes "valid_prefix p"
  obtains (v4) v where "paddr p = Addr4 v" "0 \<le> pbits p" "pbits p \<le> 32" "maxBits p = 32"
  | (v6) w where "paddr p = Addr6 w []" "0 \<le> pbits p" "pbits p \<le> 128" "maxBits p = 128"
  using assms by (cases "paddr p") (auto simp: valid_prefix_def maxBits_def Is4_def)

lemma Contains_child:
  assumes "valid_prefix p" "Masked p = p" "1 \<le> s" "pbits p + s \<le> maxBits p" "i < 2 ^ nat s"
  shows "Contains (child p s i) a \<longleftrightarrow> Contains p a \<and> childIndex p s a = i"
  using assms(1)
proof (cases rule: valid_cases)
  case (v4 v)
  have b: "pbits p + s \<le> 32" using assms(4) v4(4) by simp
  show ?thesis by (rule Contains_child4 [OF assms(2) v4(1,2) assms(3) b assms(5)])
next
  case (v6 w)
  have b: "pbits p + s \<le> 128" using assms(4) v6(4) by simp
  show ?thesis by (rule Contains_child6 [OF assms(2) v6(1,2) assms(3) b assms(5)])
qed

lemma makeslice_fits:
  assumes "sizeofPrefix * 2 ^ nat s \<le> maxAlloc" "sizeofPrefix * 2 ^ nat s \<le> int avail"
  shows "makeslice avail sizeofPrefix (2 ^ nat s) = None" and "s \<le> 62"
proof -
  show "makeslice avail sizeofPrefix (2 ^ nat s) = None"
    using assms by (simp add: makeslice_def)
  have "nat s \<le> 43"
  proof (rule ccontr)
    assume "\<not> nat s \<le> 43"
    then have "44 \<le> nat s" by simp
    then have "(2::int) ^ 44 \<le> 2 ^ nat s" by (rule power_increasing) simp
    with assms(1) show False by (simp add: sizeofPrefix_def maxAlloc_def)
  qed
  then show "s \<le> 62" by simp
qed

lemma SplitPrefix_children:
  assumes "valid_prefix p" "Masked p = p" "1 \<le> s" "pbits p + s \<le> maxBits p"
    and fits: "sizeofPrefix * 2 ^ nat s \<le> maxAlloc" "sizeofPrefix * 2 ^ nat s \<le> int avail"
  shows "SplitPrefix avail p s = Inr (map (child p s) [0..<2 ^ nat s])"
proof -
  note s62 = makeslice_fits(2) [OF fits]
  have nb: "int64 (pbits p + s) = pbits p + s"
    using assms(1,3,4) by (cases rule: valid_cases) (auto intro!: int64_id)
  have mb: "(if Is4 (paddr p) then 32 else 128) = maxBits p" by (simp add: maxBits_def)
  have chmk: "childPrefixAddr (paddr p) (pbits p) s (int i) = Inr (paddr (child p s i)) \<and>
      Masked (PrefixFrom (paddr (child p s i)) (pbits p + s)) = child p s i"
    if "i < 2 ^ nat s" for i
    using assms(1)
  proof (cases rule: valid_cases)
    case (v4 v)
    have b: "pbits p + s \<le> 32" using assms(4) v4(4) by simp
    show ?thesis
      using childPrefixAddr4 [OF assms(2) v4(1,2) assms(3) b that] by (rule conjI)
  next
    case (v6 w)
    have b: "pbits p + s \<le> 128" using assms(4) v6(4) by simp
    show ?thesis
      using childPrefixAddr6 [OF assms(2) v6(1,2) assms(3) s62 b that] by (rule conjI)
  qed
  then have ch: "\<And>i. i < 2 ^ nat s \<Longrightarrow>
      childPrefixAddr (paddr p) (pbits p) s (int i) = Inr (paddr (child p s i))"
    and mk: "\<And>i. i < 2 ^ nat s \<Longrightarrow>
      Masked (PrefixFrom (paddr (child p s i)) (pbits p + s)) = child p s i"
    by blast+
  have loop: "splitLoop (paddr p) (pbits p) s (pbits p + s) [0..<2 ^ nat s]
      = Inr (map (\<lambda>i. Masked (PrefixFrom (paddr (child p s i)) (pbits p + s))) [0..<2 ^ nat s])"
    by (rule splitLoop_map) (simp add: ch)
  also have "\<dots> = Inr (map (child p s) [0..<2 ^ nat s])"
    by (simp add: mk)
  finally show ?thesis
    using assms(3,4)
    by (simp add: SplitPrefix_def assms(2) Let_def nb mb parts_small [OF assms(3) s62]
        makeslice_fits(1) [OF fits])
qed


lemma Masked_bits_range: "- 1 \<le> pbits (Masked p) \<and> pbits (Masked p) \<le> 128"
  by (cases "paddr p")
    (auto simp: Masked_def zeroPrefix_def PrefixFrom_def withoutZone_def BitLen_def Let_def)

lemma SplitPrefix_invalid_step: "s \<le> 0 \<Longrightarrow> SplitPrefix avail p s = Inl (ErrInvalidStep s)"
  by (simp add: SplitPrefix_def Let_def)

lemma SplitPrefix_too_deep:
  assumes "0 < s" "s < 2 ^ 63 - 128" "maxBits (Masked p) < pbits (Masked p) + s"
  shows "SplitPrefix avail p s = Inl (ErrCannotSplit (paddr (Masked p)) (pbits (Masked p)) s)"
proof -
  have "int64 (pbits (Masked p) + s) = pbits (Masked p) + s"
    using Masked_bits_range [of p] assms(1,2) by (intro int64_id) simp_all
  with assms show ?thesis by (simp add: SplitPrefix_def Let_def maxBits_def)
qed

text \<open>
  What \<open>SplitPrefix\<close> does where the slice can be made: for every valid masked prefix \<open>p\<close>
  and every step \<open>s \<ge> 1\<close> with \<open>p.bits + s \<le> family_max_bits(p)\<close> for which \<open>2^s\<close> prefixes
  fit in \<open>maxAlloc\<close> and in the memory there is, it returns \<open>2^s\<close> children in ascending order
  of index, the \<open>i\<close>-th with \<open>p.bits + s\<close> bits and the network value
  \<open>p.network | (i << (family_max_bits - (p.bits + s)))\<close>; every address of \<open>p\<close> lies in exactly
  one child and every address of a child lies in \<open>p\<close>. It returns an error when \<open>s \<le> 0\<close>, and
  when \<open>p.bits + s\<close> exceeds \<open>family_max_bits\<close> (for \<open>s\<close> below \<open>2^63 - 128\<close>, where the sum
  does not wrap).
\<close>

lemma SplitPrefix_children_partition:
  "(valid_prefix p \<and> Masked p = p \<and> 1 \<le> s \<and> pbits p + s \<le> maxBits p \<and>
    sizeofPrefix * 2 ^ nat s \<le> maxAlloc \<and> sizeofPrefix * 2 ^ nat s \<le> int avail \<longrightarrow>
      (\<exists>cs. SplitPrefix avail p s = Inr cs \<and> length cs = 2 ^ nat s \<and>
         (\<forall>i < 2 ^ nat s. cs ! i = child p s i) \<and>
         (\<forall>a. Contains p a \<longleftrightarrow> (\<exists>i < 2 ^ nat s. Contains (cs ! i) a)) \<and>
         (\<forall>a i j. i < 2 ^ nat s \<and> j < 2 ^ nat s \<and>
            Contains (cs ! i) a \<and> Contains (cs ! j) a \<longrightarrow> i = j))) \<and>
   (s \<le> 0 \<longrightarrow> SplitPrefix avail p s = Inl (ErrInvalidStep s)) \<and>
   (0 < s \<and> s < 2 ^ 63 - 128 \<and> maxBits (Masked p) < pbits (Masked p) + s \<longrightarrow>
      SplitPrefix avail p s = Inl (ErrCannotSplit (paddr (Masked p)) (pbits (Masked p)) s))"
proof (intro conjI impI)
  assume a: "valid_prefix p \<and> Masked p = p \<and> 1 \<le> s \<and> pbits p + s \<le> maxBits p \<and>
    sizeofPrefix * 2 ^ nat s \<le> maxAlloc \<and> sizeofPrefix * 2 ^ nat s \<le> int avail"
  then have v: "valid_prefix p" and m: "Masked p = p" and s: "1 \<le> s"
    and b: "pbits p + s \<le> maxBits p"
    and fits: "sizeofPrefix * 2 ^ nat s \<le> maxAlloc" "sizeofPrefix * 2 ^ nat s \<le> int avail"
    by simp_all
  let ?cs = "map (child p s) [0..<2 ^ nat s]"
  have nth: "?cs ! i = child p s i" if "i < 2 ^ nat s" for i using that by simp
  have cc: "Contains (?cs ! i) a \<longleftrightarrow> Contains p a \<and> childIndex p s a = i"
    if "i < 2 ^ nat s" for i a
    using Contains_child [OF v m s b that] nth [OF that] by simp
  have "SplitPrefix avail p s = Inr ?cs" using v m s b fits by (rule SplitPrefix_children)
  moreover have "length ?cs = 2 ^ nat s" by simp
  moreover have "\<forall>i < 2 ^ nat s. ?cs ! i = child p s i" using nth by blast
  moreover have "\<forall>a. Contains p a \<longleftrightarrow> (\<exists>i < 2 ^ nat s. Contains (?cs ! i) a)"
  proof (intro allI iffI)
    fix a assume "Contains p a"
    then have "Contains (?cs ! childIndex p s a) a" using cc [OF childIndex_less] by simp
    then show "\<exists>i < 2 ^ nat s. Contains (?cs ! i) a" using childIndex_less by blast
  next
    fix a assume "\<exists>i < 2 ^ nat s. Contains (?cs ! i) a"
    then show "Contains p a" using cc by blast
  qed
  moreover have "\<forall>a i j. i < 2 ^ nat s \<and> j < 2 ^ nat s \<and>
      Contains (?cs ! i) a \<and> Contains (?cs ! j) a \<longrightarrow> i = j"
  proof (intro allI impI)
    fix a i j
    assume h: "i < 2 ^ nat s \<and> j < 2 ^ nat s \<and>
      Contains (?cs ! i) a \<and> Contains (?cs ! j) a"
    then have "childIndex p s a = i" "childIndex p s a = j" using cc by blast+
    then show "i = j" by simp
  qed
  ultimately show "\<exists>cs. SplitPrefix avail p s = Inr cs \<and> length cs = 2 ^ nat s \<and>
         (\<forall>i < 2 ^ nat s. cs ! i = child p s i) \<and>
         (\<forall>a. Contains p a \<longleftrightarrow> (\<exists>i < 2 ^ nat s. Contains (cs ! i) a)) \<and>
         (\<forall>a i j. i < 2 ^ nat s \<and> j < 2 ^ nat s \<and>
            Contains (cs ! i) a \<and> Contains (cs ! j) a \<longrightarrow> i = j)"
    by blast
next
  assume "s \<le> 0"
  then show "SplitPrefix avail p s = Inl (ErrInvalidStep s)" by (rule SplitPrefix_invalid_step)
next
  assume "0 < s \<and> s < 2 ^ 63 - 128 \<and> maxBits (Masked p) < pbits (Masked p) + s"
  then show "SplitPrefix avail p s = Inl (ErrCannotSplit (paddr (Masked p)) (pbits (Masked p)) s)"
    using SplitPrefix_too_deep by blast
qed

text \<open>The split of \<open>1.1.0.0/16\<close> by the step 2, with 128 bytes of memory.\<close>

lemma SplitPrefix_children_partition_example:
  "\<exists>cs. SplitPrefix 128 \<lparr>paddr = Addr4 0x01010000, pbits = 16\<rparr> 2 = Inr cs \<and> length cs = 4 \<and>
     cs ! 0 = \<lparr>paddr = Addr4 0x01010000, pbits = 18\<rparr> \<and>
     cs ! 1 = \<lparr>paddr = Addr4 0x01014000, pbits = 18\<rparr> \<and>
     cs ! 2 = \<lparr>paddr = Addr4 0x01018000, pbits = 18\<rparr> \<and>
     cs ! 3 = \<lparr>paddr = Addr4 0x0101C000, pbits = 18\<rparr>"
proof -
  let ?p = "\<lparr>paddr = Addr4 0x01010000, pbits = 16\<rparr>"
  have h: "valid_prefix ?p \<and> Masked ?p = ?p \<and> (1::int) \<le> 2 \<and>
      pbits ?p + 2 \<le> maxBits ?p \<and>
      sizeofPrefix * 2 ^ nat 2 \<le> maxAlloc \<and> sizeofPrefix * 2 ^ nat 2 \<le> int 128"
    by (simp add: valid_prefix_def Masked_def PrefixFrom_def withoutZone_def BitLen_def
        maxBits_def Is4_def mask_eq_exp_minus_1 sizeofPrefix_def maxAlloc_def)
  have c: "child ?p 2 0 = \<lparr>paddr = Addr4 0x01010000, pbits = 18\<rparr>"
    "child ?p 2 1 = \<lparr>paddr = Addr4 0x01014000, pbits = 18\<rparr>"
    "child ?p 2 2 = \<lparr>paddr = Addr4 0x01018000, pbits = 18\<rparr>"
    "child ?p 2 3 = \<lparr>paddr = Addr4 0x0101C000, pbits = 18\<rparr>"
    by (simp_all add: child_def addrOr_def maxBits_def Is4_def push_bit_eq_mult)
  from SplitPrefix_children_partition [of ?p 2 128] h
  obtain cs where cs: "SplitPrefix 128 ?p 2 = Inr cs" "length cs = 2 ^ nat 2"
    "\<forall>i < 2 ^ nat 2. cs ! i = child ?p 2 i"
    by blast
  have "cs ! 0 = child ?p 2 0" "cs ! 1 = child ?p 2 1" "cs ! 2 = child ?p 2 2"
    "cs ! 3 = child ?p 2 3"
    using cs(3) by simp_all
  with cs(1,2) c show ?thesis by simp
qed

text \<open>
  Where the slice cannot be made \<open>SplitPrefix\<close> does not return: for a valid masked prefix
  and a step from 44 to 63 within the family, \<open>make\<close> panics.
\<close>

lemma SplitPrefix_makeslice_panic:
  assumes "valid_prefix p" "Masked p = p" "44 \<le> s" "s \<le> 63" "pbits p + s \<le> maxBits p"
  shows "SplitPrefix avail p s = Inl PanicMakeslice"
proof -
  have nb: "int64 (pbits p + s) = pbits p + s"
    using assms(1,3,5) by (cases rule: valid_cases) (auto intro!: int64_id)
  have mb: "(if Is4 (paddr p) then 32 else 128) = maxBits p" by (simp add: maxBits_def)
  have "makeslice avail sizeofPrefix (int64 (push_bit (nat s) 1)) = Some PanicMakeslice"
  proof (cases "s = 63")
    case True
    then show ?thesis by (simp add: makeslice_def int64_def)
  next
    case False
    then have s62: "s \<le> 62" using assms(4) by simp
    have s1: "1 \<le> s" using assms(3) by simp
    have "(2::int) ^ 44 \<le> 2 ^ nat s"
      by (rule power_increasing) (use assms(3) in simp_all)
    then show ?thesis
      by (simp add: makeslice_def parts_small [OF s1 s62] sizeofPrefix_def maxAlloc_def)
  qed
  then show ?thesis
    using assms(3,5) by (simp add: SplitPrefix_def assms(2) Let_def nb mb)
qed

text \<open>
  Claim C1 fails on the code for steps of 64 and more: for the valid masked prefix \<open>::/0\<close>
  and the step 64, where \<open>p.bits + s = 64\<close> is within \<open>family_max_bits = 128\<close>, \<open>1 << step\<close> is
  0 in a 64-bit \<open>int\<close>, the slice is made with no room, the loop does not run, and
  \<open>SplitPrefix\<close> returns an empty list and no error, where the claim has \<open>2^64\<close> children or
  an error. No memory is needed for it (here none is there).
\<close>

theorem SplitPrefix_step_64_returns_nothing:
  "valid_prefix \<lparr>paddr = Addr6 0 [], pbits = 0\<rparr> \<and>
   Masked \<lparr>paddr = Addr6 0 [], pbits = 0\<rparr> = \<lparr>paddr = Addr6 0 [], pbits = 0\<rparr> \<and>
   (1::int) \<le> 64 \<and>
   pbits \<lparr>paddr = Addr6 0 [], pbits = 0\<rparr> + 64 \<le> maxBits \<lparr>paddr = Addr6 0 [], pbits = 0\<rparr> \<and>
   SplitPrefix 0 \<lparr>paddr = Addr6 0 [], pbits = 0\<rparr> 64 = Inr []"
  by (simp add: SplitPrefix_def valid_prefix_def Masked_def PrefixFrom_def withoutZone_def
      BitLen_def maxBits_def Is4_def int64_def makeslice_def sizeofPrefix_def maxAlloc_def)

section \<open>Properties of RandomAddr\<close>

lemma fold_zero_bytes:
  fixes b :: "8 word list"
  assumes "k \<le> length b"
  shows "length (fold (\<lambda>i b. b[i := 0]) [0..<k] b) = length b \<and>
    (\<forall>j < length b. fold (\<lambda>i b. b[i := 0]) [0..<k] b ! j = (if j < k then 0 else b ! j))"
  using assms
proof (induction k)
  case 0
  then show ?case by simp
next
  case (Suc k)
  then have IH: "length (fold (\<lambda>i b. b[i := 0]) [0..<k] b) = length b"
    "\<forall>j < length b. fold (\<lambda>i b. b[i := 0]) [0..<k] b ! j = (if j < k then 0 else b ! j)"
    by simp_all
  show ?case using IH Suc.prems by (auto simp: nth_list_update less_Suc_eq)
qed

lemma fold_or_bytes:
  fixes base host :: "8 word list"
  assumes "k \<le> length base"
  shows "length (fold (\<lambda>i b. b[i := b ! i OR host ! i]) [0..<k] base) = length base \<and>
    (\<forall>j < length base. fold (\<lambda>i b. b[i := b ! i OR host ! i]) [0..<k] base ! j
        = (if j < k then base ! j OR host ! j else base ! j))"
  using assms
proof (induction k)
  case 0
  then show ?case by simp
next
  case (Suc k)
  then have IH: "length (fold (\<lambda>i b. b[i := b ! i OR host ! i]) [0..<k] base) = length base"
    "\<forall>j < length base. fold (\<lambda>i b. b[i := b ! i OR host ! i]) [0..<k] base ! j
        = (if j < k then base ! j OR host ! j else base ! j)"
    by simp_all
  show ?case using IH Suc.prems by (auto simp: nth_list_update less_Suc_eq)
qed

lemma word16_applyHostBits:
  assumes "length base = 16" "length host = 16"
  shows "word16 (applyHostBits base host) = word16 base OR word16 host"
proof (rule bit_word_eqI)
  fix m assume "m < LENGTH(128)"
  then have m: "m < 128" by simp
  have f: "length (applyHostBits base host) = 16"
    "\<forall>j < 16. applyHostBits base host ! j = base ! j OR host ! j"
    using fold_or_bytes [of 16 base host] assms(1) by (simp_all add: applyHostBits_def)
  have j: "15 - m div 8 < 16" by simp
  show "bit (word16 (applyHostBits base host)) m = bit (word16 base OR word16 host) m"
    using m f(2) j assms by (simp add: bit_word16 f(1) bit_or_iff)
qed

lemma bit_drop_ff: "bit (drop_bit r (0xFF :: 8 word)) t \<longleftrightarrow> r + t < 8"
proof -
  have e: "(0xFF :: 8 word) = mask 8" by (simp add: mask_eq_exp_minus_1)
  show ?thesis unfolding e by (simp add: bit_drop_bit_eq bit_mask_iff)
qed

lemma fold_fill_length:
  "length (fst (fold (\<lambda>i (b, r). (b[i := word_of_int (Intn256 r)], afterIntn256 r)) js (b, r)))
     = length (b :: 8 word list)"
  by (induction js arbitrary: b r) simp_all

lemma length_fillRand: "length (fst (fillRand r)) = 16"
  by (simp add: fillRand_def fold_fill_length)

lemma word16_keepHostBits:
  assumes "length b = 16" "0 < h" "h \<le> 128"
  shows "\<exists>b'. keepHostBits b h = Inr b' \<and> length b' = 16 \<and>
    word16 b' = take_bit (nat h) (word16 b)"
proof (cases "h = 128")
  case True
  have "take_bit 128 (word16 b) = word16 b" by (rule take_bit_word_eq_self) simp
  with True assms(1) show ?thesis by (simp add: keepHostBits_def)
next
  case False
  define T where "T = nat (128 - h)"
  define F where "F = T div 8"
  define R where "R = T mod 8"
  have T: "0 < T" "T < 128" "nat h + T = 128" "128 - h = int T"
    using assms(2,3) False by (simp_all add: T_def)
  have TFR: "T = 8 * F + R" and R: "R < 8" by (simp_all add: F_def R_def)
  have F: "F \<le> 15" using T(2) by (simp add: F_def)
  have nF: "int T div 8 = int F" by (simp add: F_def zdiv_int)
  have nR: "int T mod 8 = int R" by (simp add: R_def zmod_int)
  define b1 where "b1 = fold (\<lambda>i b. b[i := 0]) [0..<F] b"
  have b1: "length b1 = 16" "\<And>j. j < 16 \<Longrightarrow> b1 ! j = (if j < F then 0 else b ! j)"
    using fold_zero_bytes [of F b] F assms(1) by (simp_all add: b1_def)
  define b' where "b' = (if 0 < R then b1[F := b1 ! F AND drop_bit R 0xFF] else b1)"
  have k: "keepHostBits b h = Inr b'"
    using T(1,4) F by (simp add: keepHostBits_def Let_def nF nR b1_def b'_def)
  have len: "length b' = 16" by (simp add: b'_def b1(1))
  have nth: "b' ! j = (if j < F then 0
                      else if j = F \<and> 0 < R then b ! F AND drop_bit R 0xFF else b ! j)"
    if "j < 16" for j
    using that F by (auto simp: b'_def b1 nth_list_update)
  have "word16 b' = take_bit (nat h) (word16 b)"
  proof (rule bit_word_eqI)
    fix m assume "m < LENGTH(128)"
    then have m: "m < 128" by simp
    define q where "q = m div 8"
    define t where "t = m mod 8"
    have mq: "m = 8 * q + t" and t: "t < 8" by (simp_all add: q_def t_def)
    have q: "q \<le> 15" using m by (simp add: q_def)
    have j: "15 - q < 16" by simp
    have "bit (word16 b') m \<longleftrightarrow> bit (b' ! (15 - q)) t"
      using m by (simp add: bit_word16 len q_def t_def)
    also have "\<dots> \<longleftrightarrow> m < nat h \<and> bit (b ! (15 - q)) t"
    proof (cases "15 - q < F")
      case True
      then have "\<not> m < nat h" using mq T(3) TFR R q by arith
      with True show ?thesis by (simp add: nth [OF j])
    next
      case nlt: False
      show ?thesis
      proof (cases "15 - q = F")
        case True
        have "m < nat h \<longleftrightarrow> R + t < 8" using mq T(3) TFR R q True t by arith
        with True t show ?thesis
          by (cases "0 < R") (auto simp: nth [OF j] bit_and_iff bit_drop_ff)
      next
        case False
        with nlt have "F < 15 - q" by simp
        then have "m < nat h" using mq T(3) TFR R q t by arith
        with False nlt show ?thesis by (simp add: nth [OF j])
      qed
    qed
    also have "\<dots> \<longleftrightarrow> bit (take_bit (nat h) (word16 b)) m"
      using m by (simp add: bit_take_bit_iff bit_word16 assms(1) q_def t_def)
    finally show "bit (word16 b') m = bit (take_bit (nat h) (word16 b)) m" .
  qed
  with k len show ?thesis by blast
qed

lemma Masked_valid4:
  assumes "paddr p = Addr4 v" "0 \<le> pbits p" "pbits p \<le> 32"
  shows "Masked p = \<lparr>paddr = Addr4 (v AND NOT (mask (nat (32 - pbits p)))), pbits = pbits p\<rparr>"
  using assms by (simp add: Masked_def PrefixFrom_def withoutZone_def BitLen_def Let_def)

lemma Masked_valid6:
  assumes "paddr p = Addr6 w []" "0 \<le> pbits p" "pbits p \<le> 128"
  shows "Masked p = \<lparr>paddr = Addr6 (w AND NOT (mask (nat (128 - pbits p)))) [], pbits = pbits p\<rparr>"
  using assms by (simp add: Masked_def PrefixFrom_def withoutZone_def BitLen_def Let_def)

lemma RandomAddr4_eq:
  assumes "paddr p = Addr4 v" "0 \<le> pbits p" "pbits p \<le> 32"
  shows "RandomAddr cr p r =
     (if pbits p = 32 then Inr (Addr4 v, r)
      else Inr (Addr4 ((v AND NOT (mask (nat (32 - pbits p)))) OR
                       ucast (Uint64 r AND mask (nat (32 - pbits p)))), afterUint64 r))"
proof -
  have m: "2 ^ k - 1 = (mask k :: 64 word)" for k
    by (simp add: mask_eq_exp_minus_1)
  show ?thesis
    unfolding RandomAddr_def Masked_valid4 [OF assms]
    using assms(2,3) by (simp add: Is4_def randomAddr4_def Let_def m)
qed

lemma RandomAddr6_eq:
  assumes "paddr p = Addr6 w []" "0 \<le> pbits p" "pbits p \<le> 128"
  shows "RandomAddr cr p r =
     (if pbits p = 128 then Inr (Addr6 w [], r)
      else case cr of
        Some c \<Rightarrow>
          Inr (Addr6 ((w AND NOT (mask (nat (128 - pbits p)))) OR
                      take_bit (nat (128 - pbits p)) c) [], r)
      | None \<Rightarrow>
          Inr (Addr6 ((w AND NOT (mask (nat (128 - pbits p)))) OR
                      take_bit (nat (128 - pbits p)) (word16 (fst (fillRand r)))) [],
               snd (fillRand r)))"
proof (cases "pbits p = 128")
  case True
  then show ?thesis
    unfolding RandomAddr_def Masked_valid6 [OF assms]
    by (simp add: Is4_def randomAddr6_def Let_def As16_def AddrFrom16_def word16_bytes16)
next
  case False
  define h where "h = 128 - pbits p"
  have h: "0 < h" "h \<le> 128" using assms(2,3) False by (simp_all add: h_def)
  define base where "base = bytes16 (w AND NOT (mask (nat h)))"
  have src: "\<exists>host. keepHostBits rand h = Inr host \<and>
      AddrFrom16 (applyHostBits base host)
        = Addr6 ((w AND NOT (mask (nat h))) OR take_bit (nat h) (word16 rand)) []"
    if "length rand = 16" for rand
  proof -
    from word16_keepHostBits [OF that h] obtain host
      where host: "keepHostBits rand h = Inr host" "length host = 16"
        "word16 host = take_bit (nat h) (word16 rand)"
      by blast
    have "word16 (applyHostBits base host) = word16 base OR word16 host"
      by (rule word16_applyHostBits) (simp_all add: base_def length_bytes16 host(2))
    with host show ?thesis by (simp add: AddrFrom16_def base_def word16_bytes16)
  qed
  show ?thesis
  proof (cases cr)
    case None
    obtain rand r' where f: "fillRand r = (rand, r')" by (cases "fillRand r")
    then have "length rand = 16" using length_fillRand [of r] by simp
    from src [OF this] obtain host where "keepHostBits rand h = Inr host"
      "AddrFrom16 (applyHostBits base host)
        = Addr6 ((w AND NOT (mask (nat h))) OR take_bit (nat h) (word16 rand)) []"
      by blast
    then show ?thesis
      unfolding RandomAddr_def Masked_valid6 [OF assms]
      using False h(1) None f
      by (simp add: Is4_def randomAddr6_def Let_def As16_def base_def h_def)
  next
    case (Some c)
    from src [of "bytes16 c"] obtain host where "keepHostBits (bytes16 c) h = Inr host"
      "AddrFrom16 (applyHostBits base host)
        = Addr6 ((w AND NOT (mask (nat h))) OR take_bit (nat h) (word16 (bytes16 c))) []"
      by (auto simp: length_bytes16)
    then show ?thesis
      unfolding RandomAddr_def Masked_valid6 [OF assms]
      using False h(1) Some
      by (simp add: Is4_def randomAddr6_def Let_def As16_def base_def h_def word16_bytes16)
  qed
qed

lemma top_bits_kept:
  fixes v x :: "'a::len word"
  assumes "\<forall>m \<ge> k. \<not> bit x m"
  shows "drop_bit k (((v AND NOT (mask k)) OR x) XOR v) = 0"
  unfolding drop_bit_xor_eq_0
  using assms by (auto simp: bit_or_iff bit_and_iff bit_not_iff bit_mask_iff dest: bit_imp_le_length)

lemma RandomAddr4_contained:
  assumes "paddr p = Addr4 v" "0 \<le> pbits p" "pbits p \<le> 32"
  shows "\<exists>a r'. RandomAddr cr p r = Inr (a, r') \<and> Contains p a \<and>
    (pbits p = 32 \<longrightarrow> a = paddr p \<and> r' = r)"
proof (cases "pbits p = 32")
  case True
  then show ?thesis
    using assms by (simp add: RandomAddr4_eq [OF assms] Contains_def)
next
  case False
  define k where "k = nat (32 - pbits p)"
  have "\<forall>m \<ge> k. \<not> bit (ucast (Uint64 r AND mask k) :: 32 word) m"
    by (simp add: bit_ucast_iff bit_and_iff bit_mask_iff)
  then have "drop_bit k (((v AND NOT (mask k)) OR ucast (Uint64 r AND mask k)) XOR v) = 0"
    by (rule top_bits_kept)
  with False assms show ?thesis
    by (simp add: RandomAddr4_eq [OF assms] Contains_def k_def)
qed

lemma RandomAddr6_contained:
  assumes "paddr p = Addr6 w []" "0 \<le> pbits p" "pbits p \<le> 128"
  shows "\<exists>a r'. RandomAddr cr p r = Inr (a, r') \<and> Contains p a \<and>
    (pbits p = 128 \<longrightarrow> a = paddr p \<and> r' = r)"
proof (cases "pbits p = 128")
  case True
  then show ?thesis
    using assms by (simp add: RandomAddr6_eq [OF assms] Contains_def)
next
  case False
  define k where "k = nat (128 - pbits p)"
  have "drop_bit k (((w AND NOT (mask k)) OR take_bit k c) XOR w) = 0" for c :: "128 word"
    by (rule top_bits_kept) (simp add: bit_take_bit_iff)
  then have "(((w AND NOT (mask k)) OR take_bit k c) XOR w) AND NOT (mask k) = 0"
    for c :: "128 word"
    by (simp only: and_not_mask_eq_0)
  with False assms show ?thesis
    by (cases cr) (simp_all add: RandomAddr6_eq [OF assms] Contains_def k_def)
qed

text \<open>
  Claim C2. For every valid prefix \<open>p\<close>, every generator \<open>r\<close> and every behaviour of the
  cryptographic source, \<open>RandomAddr\<close> returns normally an address that \<open>p\<close> contains (its top
  \<open>p.bits\<close> bits are those of \<open>p\<close>); when \<open>p\<close> has no host bits the address is the address of \<open>p\<close>
  itself and the generator is left as it was.
\<close>

theorem RandomAddr_contained:
  "valid_prefix p \<longrightarrow>
     (\<exists>a r'. RandomAddr cr p r = Inr (a, r') \<and> Contains p a \<and>
        (pbits p = maxBits p \<longrightarrow> a = paddr p \<and> r' = r))"
proof
  assume "valid_prefix p"
  then show "\<exists>a r'. RandomAddr cr p r = Inr (a, r') \<and> Contains p a \<and>
        (pbits p = maxBits p \<longrightarrow> a = paddr p \<and> r' = r)"
  proof (cases rule: valid_cases)
    case (v4 v)
    from RandomAddr4_contained [OF v4(1,2,3), of cr r] v4(4) show ?thesis by simp
  next
    case (v6 w)
    from RandomAddr6_contained [OF v6(1,2,3), of cr r] v6(4) show ?thesis by simp
  qed
qed

theorem RandomAddr_contained_witness:
  "(\<exists>a r'. RandomAddr None \<lparr>paddr = Addr4 0x0A000000, pbits = 30\<rparr> (lcg 42) = Inr (a, r') \<and>
      Contains \<lparr>paddr = Addr4 0x0A000000, pbits = 30\<rparr> a) \<and>
   RandomAddr (Some 77) \<lparr>paddr = Addr6 0x20010db8000000000000000000000001 [], pbits = 128\<rparr> (lcg 42)
     = Inr (Addr6 0x20010db8000000000000000000000001 [], lcg 42)"
proof -
  have v4: "valid_prefix \<lparr>paddr = Addr4 0x0A000000, pbits = 30\<rparr>"
    by (simp add: valid_prefix_def)
  have v6: "valid_prefix \<lparr>paddr = Addr6 0x20010db8000000000000000000000001 [], pbits = 128\<rparr>"
    by (simp add: valid_prefix_def)
  from RandomAddr_contained [of "\<lparr>paddr = Addr4 0x0A000000, pbits = 30\<rparr>" None "lcg 42"] v4
    RandomAddr_contained
      [of "\<lparr>paddr = Addr6 0x20010db8000000000000000000000001 [], pbits = 128\<rparr>" "Some 77" "lcg 42"] v6
  show ?thesis by (auto simp: maxBits_def Is4_def)
qed

text \<open>
  Claim C5, as amended. The address that \<open>RandomAddr\<close> samples does not depend on the
  cryptographic source for an IPv4 prefix and for a prefix without host bits: there it is a
  function of the prefix and the generator. For an IPv6 prefix with host bits it is the
  network value with the low host bits of the 16 bytes of the cryptographic source, the
  generator untouched, whenever that source succeeds; only when it fails are the host bits
  those of 16 draws \<open>r.Intn(256)\<close> of the generator.
\<close>

theorem RandomAddr_sources:
  "(valid_prefix p \<and> (Is4 (paddr p) \<or> pbits p = 128) \<longrightarrow>
      RandomAddr cr p r = RandomAddr cr' p r) \<and>
   (paddr p = Addr6 w [] \<and> 0 \<le> pbits p \<and> pbits p < 128 \<longrightarrow>
      RandomAddr (Some c) p r =
        Inr (Addr6 ((w AND NOT (mask (nat (128 - pbits p)))) OR
                    take_bit (nat (128 - pbits p)) c) [], r) \<and>
      RandomAddr None p r =
        Inr (Addr6 ((w AND NOT (mask (nat (128 - pbits p)))) OR
                    take_bit (nat (128 - pbits p)) (word16 (fst (fillRand r)))) [],
             snd (fillRand r)))"
proof (intro conjI impI)
  assume a: "valid_prefix p \<and> (Is4 (paddr p) \<or> pbits p = 128)"
  then have "valid_prefix p" ..
  then show "RandomAddr cr p r = RandomAddr cr' p r"
  proof (cases rule: valid_cases)
    case (v4 v)
    then show ?thesis by (simp add: RandomAddr4_eq)
  next
    case (v6 w)
    with a have "pbits p = 128" by (simp add: Is4_def)
    with v6 show ?thesis by (simp add: RandomAddr6_eq)
  qed
next
  assume a: "paddr p = Addr6 w [] \<and> 0 \<le> pbits p \<and> pbits p < 128"
  then have *: "paddr p = Addr6 w []" "0 \<le> pbits p" "pbits p \<le> 128" "pbits p \<noteq> 128"
    by simp_all
  show "RandomAddr (Some c) p r =
        Inr (Addr6 ((w AND NOT (mask (nat (128 - pbits p)))) OR
                    take_bit (nat (128 - pbits p)) c) [], r)"
    using *(4) by (simp add: RandomAddr6_eq [OF *(1,2,3)])
  show "RandomAddr None p r =
        Inr (Addr6 ((w AND NOT (mask (nat (128 - pbits p)))) OR
                    take_bit (nat (128 - pbits p)) (word16 (fst (fillRand r)))) [],
             snd (fillRand r))"
    using *(4) by (simp add: RandomAddr6_eq [OF *(1,2,3)])
qed

theorem RandomAddr_sources_witness:
  "RandomAddr (Some 5) \<lparr>paddr = Addr4 0x0A000000, pbits = 30\<rparr> (lcg 42)
     = RandomAddr None \<lparr>paddr = Addr4 0x0A000000, pbits = 30\<rparr> (lcg 42) \<and>
   RandomAddr (Some 0x0123456789ABCDEF0123456789ABCDEF)
     \<lparr>paddr = Addr6 0x20010db8000000000000000000000000 [], pbits = 96\<rparr> (lcg 42)
     = Inr (Addr6 0x20010db8000000000000000089ABCDEF [], lcg 42)"
proof -
  have h1: "valid_prefix \<lparr>paddr = Addr4 0x0A000000, pbits = 30\<rparr> \<and>
      (Is4 (paddr \<lparr>paddr = Addr4 0x0A000000, pbits = 30\<rparr>) \<or>
       pbits \<lparr>paddr = Addr4 0x0A000000, pbits = 30\<rparr> = 128)"
    by (simp add: valid_prefix_def Is4_def)
  have h2: "paddr \<lparr>paddr = Addr6 0x20010db8000000000000000000000000 [], pbits = 96\<rparr>
        = Addr6 0x20010db8000000000000000000000000 [] \<and>
      0 \<le> pbits \<lparr>paddr = Addr6 0x20010db8000000000000000000000000 [], pbits = 96\<rparr> \<and>
      pbits \<lparr>paddr = Addr6 0x20010db8000000000000000000000000 [], pbits = 96\<rparr> < 128"
    by simp
  have e: "(0x20010db8000000000000000000000000 AND NOT (mask 32)) OR
      take_bit 32 (0x0123456789ABCDEF0123456789ABCDEF :: 128 word)
      = 0x20010db8000000000000000089ABCDEF"
    by (simp add: mask_eq_exp_minus_1 take_bit_eq_mod)
  from RandomAddr_sources [of "\<lparr>paddr = Addr4 0x0A000000, pbits = 30\<rparr>" "Some 5" "lcg 42" None] h1
    RandomAddr_sources
      [of "\<lparr>paddr = Addr6 0x20010db8000000000000000000000000 [], pbits = 96\<rparr>" _ "lcg 42" _
          "0x20010db8000000000000000000000000" "0x0123456789ABCDEF0123456789ABCDEF"] h2 e
  show ?thesis by simp
qed

text \<open>
  Claim C5 as stated fails: with the same IPv6 prefix and the same generator, two
  different outputs of the cryptographic source give two different addresses.
\<close>

theorem RandomAddr_crypto_source_counterexample:
  "RandomAddr (Some 1) \<lparr>paddr = Addr6 0x20010db8000000000000000000000000 [], pbits = 32\<rparr> (lcg 42)
     = Inr (Addr6 0x20010db8000000000000000000000001 [], lcg 42) \<and>
   RandomAddr (Some 2) \<lparr>paddr = Addr6 0x20010db8000000000000000000000000 [], pbits = 32\<rparr> (lcg 42)
     = Inr (Addr6 0x20010db8000000000000000000000002 [], lcg 42)"
  by (simp add: RandomAddr_def randomAddr6_def Masked_def PrefixFrom_def withoutZone_def
      BitLen_def Is4_def As16_def bytes16_def keepHostBits_def applyHostBits_def AddrFrom16_def
      word16_def mask_eq_exp_minus_1 upt_conv_Cons)

section \<open>Properties of the probe client\<close>






end
